theory Spec2Isabelle
  imports Main "HOL-Library.Word"
begin

unbundle bit_operations_syntax

section \<open>Three fixed-capacity stacks (demo/stack01/lfstack.cc)\<close>

text \<open>
  The source defines three class templates: \<open>stack<T>\<close> (single-threaded),
  \<open>lstack<T>\<close> (a \<open>stack<T>\<close> behind a mutex) and \<open>lfstack<T>\<close> (an atomic
  32-bit control word driven by compare-and-swap loops). Indices are \<open>uint32_t\<close>, modelled
  as \<open>32 word\<close>; the argument of resize is a \<open>size_t\<close>, modelled as \<open>nat\<close>.
  An \<open>assert\<close> that fails and an access outside the vector are results of the model.
\<close>

type_synonym u32 = "32 word"

datatype error = AssertionFailed | UndefinedBehaviour

text \<open>\<open>std::vector<T>::resize(n)\<close>: keeps the first \<open>n\<close> elements and appends
  value-initialised elements \<open>z\<close> up to length \<open>n\<close>.\<close>

definition vector_resize :: "'a \<Rightarrow> nat \<Rightarrow> 'a list \<Rightarrow> 'a list" where
  "vector_resize z n xs = take n xs @ replicate (n - length xs) z"

subsection \<open>class stack\<close>

text \<open>
  Fields \<open>contents\<close>, \<open>_contents\<close>, \<open>index\<close>, \<open>size\<close>. The raw pointer \<open>_contents\<close> is
  either null or the address of \<open>contents[0]\<close>; \<open>s_ptr\<close> says it is not null, and an
  access \<open>_contents[i]\<close> is an access to \<open>contents[i]\<close>.
\<close>

record 'a stack =
  s_contents :: "'a list"
  s_ptr :: bool
  s_index :: u32
  s_size :: u32

text \<open>The default constructor: the member initialisers of lines 30, 32, 33.\<close>

definition stack_new :: "'a stack" where
  "stack_new = \<lparr>s_contents = [], s_ptr = False, s_index = 0, s_size = 0\<rparr>"

text \<open>\<open>stack::resize\<close> (lines 37-40). \<open>&contents[0]\<close> on an empty vector is outside the
  vector. The field \<open>size\<close> is not assigned.\<close>

definition stack_resize :: "'a \<Rightarrow> nat \<Rightarrow> 'a stack \<Rightarrow> error + 'a stack" where
  "stack_resize z n s =
     (let c = vector_resize z n (s_contents s)
      in if c = [] then Inl UndefinedBehaviour
         else Inr (s\<lparr>s_contents := c, s_ptr := True\<rparr>))"

text \<open>\<open>stack::push\<close> (lines 42-46): two assertions, then \<open>_contents[index++] = t\<close>.
  \<open>size - 1\<close> is computed in \<open>uint32_t\<close>.\<close>

definition stack_push :: "'a \<Rightarrow> 'a stack \<Rightarrow> error + 'a stack" where
  "stack_push t s =
     (if \<not> s_ptr s then Inl AssertionFailed
      else if \<not> (s_index s < s_size s - 1) then Inl AssertionFailed
      else if length (s_contents s) \<le> unat (s_index s) then Inl UndefinedBehaviour
      else Inr (s\<lparr>s_contents := (s_contents s)[unat (s_index s) := t],
                  s_index := s_index s + 1\<rparr>))"

text \<open>\<open>stack::try_pop\<close> (lines 50-55). The reference parameter \<open>t\<close> is passed in and its
  value after the call is returned beside the boolean.\<close>

definition stack_try_pop :: "'a \<Rightarrow> 'a stack \<Rightarrow> error + (bool \<times> 'a \<times> 'a stack)" where
  "stack_try_pop t s =
     (if s_index s = 0 then Inr (False, t, s)
      else if \<not> (0 < s_index s) then Inl AssertionFailed
      else let i = s_index s - 1
           in if length (s_contents s) \<le> unat i then Inl UndefinedBehaviour
              else Inr (True, s_contents s ! unat i, s\<lparr>s_index := i\<rparr>))"

subsection \<open>class lstack\<close>

text \<open>A \<open>stack\<close> and a \<open>std::mutex\<close>; \<open>mx\<close> is True while the mutex is held.
  \<open>std::lock_guard\<close> locks at construction and unlocks when the scope is left; locking a
  mutex that the calling thread already holds is undefined.\<close>

record 'a lstack =
  wrapped :: "'a stack"
  mx :: bool

definition lstack_new :: "'a lstack" where
  "lstack_new = \<lparr>wrapped = stack_new, mx = False\<rparr>"

definition mutex_lock :: "'a lstack \<Rightarrow> error + 'a lstack" where
  "mutex_lock l = (if mx l then Inl UndefinedBehaviour else Inr (l\<lparr>mx := True\<rparr>))"

definition mutex_unlock :: "'a lstack \<Rightarrow> 'a lstack" where
  "mutex_unlock l = l\<lparr>mx := False\<rparr>"

text \<open>\<open>lstack::nonconcurrent_resize\<close> (lines 70-72): no lock is taken.\<close>

definition lstack_nonconcurrent_resize :: "'a \<Rightarrow> nat \<Rightarrow> 'a lstack \<Rightarrow> error + 'a lstack" where
  "lstack_nonconcurrent_resize z n l =
     (case stack_resize z n (wrapped l) of
        Inl e \<Rightarrow> Inl e
      | Inr w \<Rightarrow> Inr (l\<lparr>wrapped := w\<rparr>))"

text \<open>\<open>lstack::push\<close> (lines 74-78).\<close>

definition lstack_push :: "'a \<Rightarrow> 'a lstack \<Rightarrow> error + 'a lstack" where
  "lstack_push t l =
     (case mutex_lock l of
        Inl e \<Rightarrow> Inl e
      | Inr l1 \<Rightarrow>
          (case stack_push t (wrapped l1) of
             Inl e \<Rightarrow> Inl e
           | Inr w \<Rightarrow> Inr (mutex_unlock (l1\<lparr>wrapped := w\<rparr>))))"

text \<open>\<open>lstack::try_pop\<close> (lines 82-86).\<close>

definition lstack_try_pop :: "'a \<Rightarrow> 'a lstack \<Rightarrow> error + (bool \<times> 'a \<times> 'a lstack)" where
  "lstack_try_pop t l =
     (case mutex_lock l of
        Inl e \<Rightarrow> Inl e
      | Inr l1 \<Rightarrow>
          (case stack_try_pop t (wrapped l1) of
             Inl e \<Rightarrow> Inl e
           | Inr (b, t', w) \<Rightarrow> Inr (b, t', mutex_unlock (l1\<lparr>wrapped := w\<rparr>))))"

subsection \<open>class lfstack: the control word\<close>

record 'a lfstack =
  lf_contents :: "'a list"
  lf_ptr :: bool
  lf_index :: u32
  lf_size :: u32

text \<open>The default constructor leaves the atomic \<open>index\<close> without an initial value: it is
  the parameter \<open>i0\<close>.\<close>

definition lfstack_new :: "u32 \<Rightarrow> 'a lfstack" where
  "lfstack_new i0 = \<lparr>lf_contents = [], lf_ptr = False, lf_index = i0, lf_size = 0\<rparr>"

definition clean_index :: "u32 \<Rightarrow> u32" where
  "clean_index i = i AND 0xfffffffe"

definition flag_index :: "u32 \<Rightarrow> u32" where
  "flag_index i = i OR 0x01"

definition read_index :: "u32 \<Rightarrow> u32" where
  "read_index i = drop_bit 1 i"

text \<open>\<open>decrement_index\<close> (lines 128-131) asserts \<open>i > 0\<close> and subtracts in \<open>uint32_t\<close>.\<close>

definition decrement_index :: "u32 \<Rightarrow> error + u32" where
  "decrement_index i = (if 0 < i then Inr (i - 2) else Inl AssertionFailed)"

definition is_zero :: "u32 \<Rightarrow> bool" where
  "is_zero i = (i < 2)"

definition increment_index :: "u32 \<Rightarrow> u32" where
  "increment_index i = i + 2"

text \<open>\<open>std::atomic_compare_exchange_strong(&obj, &expected, desired)\<close>: the result is
  (success, new value of obj, new value of expected).\<close>

definition compare_exchange_strong :: "u32 \<Rightarrow> u32 \<Rightarrow> u32 \<Rightarrow> bool \<times> u32 \<times> u32" where
  "compare_exchange_strong obj expected desired =
     (if obj = expected then (True, desired, expected) else (False, obj, obj))"

text \<open>\<open>lfstack::nonconcurrent_resize\<close> (lines 160-165); \<open>size = n\<close> converts the
  \<open>size_t\<close> to \<open>uint32_t\<close>.\<close>

definition lfstack_nonconcurrent_resize :: "'a \<Rightarrow> nat \<Rightarrow> 'a lfstack \<Rightarrow> error + 'a lfstack" where
  "lfstack_nonconcurrent_resize z n s =
     (let c = vector_resize z n (lf_contents s)
      in if c = [] then Inl UndefinedBehaviour
         else Inr (s\<lparr>lf_contents := c, lf_ptr := True, lf_size := of_nat n, lf_index := 0\<rparr>))"

subsection \<open>class lfstack: push and try\_pop as thread steps\<close>

text \<open>
  A thread inside \<open>push\<close> or \<open>try_pop\<close> is at one of the program points below, with the
  values of its local variables (\<open>t\<close> or \<open>dest\<close>, and \<open>index_copy\<close>). One step runs from
  a program point up to and including the next access to the shared object (an atomic load,
  a compare-and-swap, a read or a write of a slot), so that steps of different threads
  interleave exactly at the shared accesses.
\<close>

text \<open>
  Program points of \<open>push\<close> (lines 168-182) and of \<open>acquire_write_rights\<close>
  (lines 141-148), which \<open>push\<close> calls at line 170:
  \<^item> \<open>Push_entry t\<close>: the call, before the assertion of line 169;
  \<^item> \<open>Acquire_load t\<close>: before \<open>index.load()\<close> of line 144;
  \<^item> \<open>Acquire_cas t index_copy\<close>: before the compare-and-swap of lines 145-147;
  \<^item> \<open>Acquire_end t\<close>: the loop of \<open>acquire_write_rights\<close> has ended and control is at
    the closing brace of line 148;
  \<^item> \<open>Push_load t\<close>: before \<open>index.load()\<close> of line 175 and the assertion of line 176;
  \<^item> \<open>Push_store t index_copy\<close>: before the write of line 177;
  \<^item> \<open>Push_cas t index_copy\<close>: before the compare-and-swap of lines 179-181;
  \<^item> \<open>Push_return\<close>: returned.

  Program points of \<open>try_pop\<close> (lines 184-194):
  \<^item> \<open>Pop_entry dest\<close>: the call, before the assertion of line 185;
  \<^item> \<open>Pop_load dest\<close>: before \<open>index.load()\<close> of line 188 and the test of line 189;
  \<^item> \<open>Pop_read dest index_copy\<close>: before the read of line 190;
  \<^item> \<open>Pop_cas dest index_copy\<close>: before the compare-and-swap of lines 191-192;
  \<^item> \<open>Pop_return b dest\<close>: returned \<open>b\<close>, the reference parameter holding \<open>dest\<close>.

  \<open>Idle\<close> is a thread outside any call and \<open>Abort e\<close> a thread that has ended the
  program. When a compare-and-swap fails it writes the current word to \<open>index_copy\<close>, but
  each loop assigns \<open>index_copy\<close> again before reading it.

  \<open>acquire_write_rights\<close> is declared to return \<open>uint32_t\<close> and has no return
  statement. Flowing off the end of such a function is undefined, so the step at
  \<open>Acquire_end\<close> is \<open>Abort UndefinedBehaviour\<close>: as the source is written, no call of
  \<open>push\<close> gets from line 170 to line 173 by defined behaviour. The steps of lines 173-181
  are modelled as written all the same, from the program point \<open>Push_load\<close>.
\<close>

datatype 'a lfthread =
    Idle
  | Push_entry 'a
  | Acquire_load 'a
  | Acquire_cas 'a u32
  | Acquire_end 'a
  | Push_load 'a
  | Push_store 'a u32
  | Push_cas 'a u32
  | Push_return
  | Pop_entry 'a
  | Pop_load 'a
  | Pop_read 'a u32
  | Pop_cas 'a u32
  | Pop_return bool 'a
  | Abort error

fun step :: "'a lfthread \<Rightarrow> 'a lfstack \<Rightarrow> 'a lfthread \<times> 'a lfstack" where
  "step (Push_entry t) s =
     (if lf_ptr s then (Acquire_load t, s) else (Abort AssertionFailed, s))"
| "step (Acquire_load t) s = (Acquire_cas t (lf_index s), s)"
| "step (Acquire_cas t index_copy) s =
     (case compare_exchange_strong (lf_index s) index_copy (flag_index index_copy) of
        (ok, obj, _) \<Rightarrow> (if ok then Acquire_end t else Acquire_load t, s\<lparr>lf_index := obj\<rparr>))"
| "step (Acquire_end t) s = (Abort UndefinedBehaviour, s)"
| "step (Push_load t) s =
     (let index_copy = lf_index s
      in if read_index index_copy < lf_size s - 1 then (Push_store t index_copy, s)
         else (Abort AssertionFailed, s))"
| "step (Push_store t index_copy) s =
     (let k = unat (read_index (clean_index index_copy))
      in if k < length (lf_contents s)
         then (Push_cas t index_copy, s\<lparr>lf_contents := (lf_contents s)[k := t]\<rparr>)
         else (Abort UndefinedBehaviour, s))"
| "step (Push_cas t index_copy) s =
     (case compare_exchange_strong (lf_index s) index_copy
             (increment_index (clean_index index_copy)) of
        (ok, obj, _) \<Rightarrow> (if ok then Push_return else Push_load t, s\<lparr>lf_index := obj\<rparr>))"
| "step (Pop_entry dest) s =
     (if lf_ptr s then (Pop_load dest, s) else (Abort AssertionFailed, s))"
| "step (Pop_load dest) s =
     (let index_copy = clean_index (lf_index s)
      in if is_zero index_copy then (Pop_return False dest, s)
         else (Pop_read dest index_copy, s))"
| "step (Pop_read dest index_copy) s =
     (case decrement_index index_copy of
        Inl e \<Rightarrow> (Abort e, s)
      | Inr j \<Rightarrow>
          (let k = unat (read_index j)
           in if k < length (lf_contents s) then (Pop_cas (lf_contents s ! k) index_copy, s)
              else (Abort UndefinedBehaviour, s)))"
| "step (Pop_cas dest index_copy) s =
     (case decrement_index index_copy of
        Inl e \<Rightarrow> (Abort e, s)
      | Inr j \<Rightarrow>
          (case compare_exchange_strong (lf_index s) index_copy j of
             (ok, obj, _) \<Rightarrow>
               (if ok then Pop_return True dest else Pop_load dest, s\<lparr>lf_index := obj\<rparr>)))"
| "step Idle s = (Idle, s)"
| "step Push_return s = (Push_return, s)"
| "step (Pop_return b dest) s = (Pop_return b dest, s)"
| "step (Abort e) s = (Abort e, s)"

text \<open>A call has ended when the thread has returned or the program has aborted.\<close>

fun ended :: "'a lfthread \<Rightarrow> bool" where
  "ended Idle = True"
| "ended Push_return = True"
| "ended (Pop_return b dest) = True"
| "ended (Abort e) = True"
| "ended _ = False"

text \<open>One thread alone: its steps run back to back until the call ends. The loops of the
  source have no bound, so the result is \<open>None\<close> when the call never ends.\<close>

partial_function (option) run :: "'a lfthread \<Rightarrow> 'a lfstack \<Rightarrow> ('a lfthread \<times> 'a lfstack) option" where
  "run p s = (if ended p then Some (p, s) else run (fst (step p s)) (snd (step p s)))"

definition lfstack_push :: "'a \<Rightarrow> 'a lfstack \<Rightarrow> ('a lfthread \<times> 'a lfstack) option" where
  "lfstack_push t s = run (Push_entry t) s"

definition lfstack_try_pop :: "'a \<Rightarrow> 'a lfstack \<Rightarrow> ('a lfthread \<times> 'a lfstack) option" where
  "lfstack_try_pop dest s = run (Pop_entry dest) s"

text \<open>The configurations of a lone \<open>try_pop\<close> that keeps retrying on the shared
  state \<open>s0\<close>; used to show that such a call never returns.\<close>

fun spinning :: "'a lfstack \<Rightarrow> 'a lfthread \<Rightarrow> 'a lfstack \<Rightarrow> bool" where
  "spinning s0 (Pop_load dest) s = (s = s0)"
| "spinning s0 (Pop_read dest index_copy) s = (s = s0 \<and> index_copy = clean_index (lf_index s0))"
| "spinning s0 (Pop_cas dest index_copy) s = (s = s0 \<and> index_copy = clean_index (lf_index s0))"
| "spinning s0 _ s = False"

subsection \<open>class lfstack: several threads\<close>

text \<open>
  The threads of a program and the stack they share. An event makes one thread call
  \<open>push\<close> or \<open>try_pop\<close> (when it is not inside a call) or take its next step; a list of
  events is one interleaving. A failed assertion aborts the whole program: once a thread
  has aborted, no event changes anything.
\<close>

datatype 'a event = Call_push nat 'a | Call_try_pop nat 'a | Step nat

fun returned :: "'a lfthread \<Rightarrow> bool" where
  "returned Idle = True"
| "returned Push_return = True"
| "returned (Pop_return b dest) = True"
| "returned _ = False"

fun aborted :: "'a lfthread \<Rightarrow> bool" where
  "aborted (Abort e) = True"
| "aborted _ = False"

fun fire :: "'a event \<Rightarrow> 'a lfthread list \<times> 'a lfstack \<Rightarrow> 'a lfthread list \<times> 'a lfstack" where
  "fire (Call_push i t) (ths, s) =
     (if \<not> list_ex aborted ths \<and> i < length ths \<and> returned (ths ! i)
      then (ths[i := Push_entry t], s) else (ths, s))"
| "fire (Call_try_pop i dest) (ths, s) =
     (if \<not> list_ex aborted ths \<and> i < length ths \<and> returned (ths ! i)
      then (ths[i := Pop_entry dest], s) else (ths, s))"
| "fire (Step i) (ths, s) =
     (if \<not> list_ex aborted ths \<and> i < length ths
      then (ths[i := fst (step (ths ! i) s)], snd (step (ths ! i) s)) else (ths, s))"

fun exec :: "'a event list \<Rightarrow> 'a lfthread list \<times> 'a lfstack \<Rightarrow> 'a lfthread list \<times> 'a lfstack" where
  "exec [] sys = sys"
| "exec (e # evs) sys = exec evs (fire e sys)"

text \<open>The argument of \<open>decrement_index\<close> at the two program points of \<open>try_pop\<close> that
  call it (lines 190 and 192).\<close>

fun decrement_index_arg :: "'a lfthread \<Rightarrow> u32 option" where
  "decrement_index_arg (Pop_read dest index_copy) = Some index_copy"
| "decrement_index_arg (Pop_cas dest index_copy) = Some index_copy"
| "decrement_index_arg _ = None"

text \<open>What a thread knows about its \<open>index_copy\<close> at each program point, given the
  (constant) \<open>size\<close>: in \<open>push\<close> the assertion of line 176 has passed, in \<open>try_pop\<close> the
  word is clean and not zero.\<close>

fun local_inv :: "u32 \<Rightarrow> 'a lfthread \<Rightarrow> bool" where
  "local_inv sz (Push_store t index_copy) = (read_index index_copy < sz - 1)"
| "local_inv sz (Push_cas t index_copy) = (read_index index_copy < sz - 1)"
| "local_inv sz (Pop_read dest index_copy) = (2 \<le> index_copy \<and> \<not> bit index_copy 0)"
| "local_inv sz (Pop_cas dest index_copy) = (2 \<le> index_copy \<and> \<not> bit index_copy 0)"
| "local_inv sz _ = True"

text \<open>What \<open>nonconcurrent_resize(n)\<close> establishes about the storage.\<close>

definition initialized :: "nat \<Rightarrow> 'a lfstack \<Rightarrow> bool" where
  "initialized n s =
     (lf_ptr s \<and> 0 < n \<and> length (lf_contents s) = n \<and> lf_size s = of_nat n)"

subsection \<open>Single-threaded clients\<close>

text \<open>
  A client calls \<open>push\<close> and \<open>try_pop\<close> in sequence, as \<open>main\<close> does, passing the same
  variable \<open>r\<close> to every \<open>try_pop\<close>. The result is the list of what the calls of
  \<open>try_pop\<close> returned (the boolean and \<open>r\<close> after the call), up to the first failure,
  and the failure or the final stack.
\<close>

datatype 'a op = Push 'a | Try_pop

fun stack_run :: "'a op list \<Rightarrow> 'a \<Rightarrow> 'a stack \<Rightarrow> (bool \<times> 'a) list \<times> (error + 'a stack)" where
  "stack_run [] r s = ([], Inr s)"
| "stack_run (Push t # ops) r s =
     (case stack_push t s of
        Inl e \<Rightarrow> ([], Inl e)
      | Inr s' \<Rightarrow> stack_run ops r s')"
| "stack_run (Try_pop # ops) r s =
     (case stack_try_pop r s of
        Inl e \<Rightarrow> ([], Inl e)
      | Inr (b, r', s') \<Rightarrow>
          (case stack_run ops r' s' of (obs, fin) \<Rightarrow> ((b, r') # obs, fin)))"

fun lstack_run :: "'a op list \<Rightarrow> 'a \<Rightarrow> 'a lstack \<Rightarrow> (bool \<times> 'a) list \<times> (error + 'a lstack)" where
  "lstack_run [] r l = ([], Inr l)"
| "lstack_run (Push t # ops) r l =
     (case lstack_push t l of
        Inl e \<Rightarrow> ([], Inl e)
      | Inr l' \<Rightarrow> lstack_run ops r l')"
| "lstack_run (Try_pop # ops) r l =
     (case lstack_try_pop r l of
        Inl e \<Rightarrow> ([], Inl e)
      | Inr (b, r', l') \<Rightarrow>
          (case lstack_run ops r' l' of (obs, fin) \<Rightarrow> ((b, r') # obs, fin)))"

text \<open>For \<open>lfstack\<close> the result is \<open>None\<close> when a call never returns.\<close>

fun lfstack_run :: "'a op list \<Rightarrow> 'a \<Rightarrow> 'a lfstack \<Rightarrow> ((bool \<times> 'a) list \<times> (error + 'a lfstack)) option" where
  "lfstack_run [] r s = Some ([], Inr s)"
| "lfstack_run (Push t # ops) r s =
     (case lfstack_push t s of
        Some (Push_return, s') \<Rightarrow> lfstack_run ops r s'
      | Some (Abort e, s') \<Rightarrow> Some ([], Inl e)
      | _ \<Rightarrow> None)"
| "lfstack_run (Try_pop # ops) r s =
     (case lfstack_try_pop r s of
        Some (Pop_return b r', s') \<Rightarrow>
          (case lfstack_run ops r' s' of
             Some (obs, fin) \<Rightarrow> Some ((b, r') # obs, fin)
           | None \<Rightarrow> None)
      | Some (Abort e, s') \<Rightarrow> Some ([], Inl e)
      | _ \<Rightarrow> None)"

subsection \<open>Invariant and example states\<close>

text \<open>The invariant of the shared stack and its threads: the count field is at most
  \<open>size - 1\<close> (in \<open>uint32_t\<close>) and every thread satisfies \<open>local_inv\<close>.\<close>

definition sys_inv :: "'a lfthread list \<times> 'a lfstack \<Rightarrow> bool" where
  "sys_inv sys =
     (read_index (lf_index (snd sys)) \<le> lf_size (snd sys) - 1 \<and>
      (\<forall>p \<in> set (fst sys). local_inv (lf_size (snd sys)) p))"

text \<open>An \<open>lfstack<int>\<close> after \<open>nonconcurrent_resize(3)\<close>.\<close>

definition ex3 :: "int lfstack" where
  "ex3 = \<lparr>lf_contents = [0, 0, 0], lf_ptr = True, lf_index = 0, lf_size = 3\<rparr>"

text \<open>The same stack holding the value 7 in slot 0 (control word 2), without and with
  the writer flag set by a \<open>push\<close> in flight (control word 3).\<close>

definition ex_inflight :: "int lfstack" where
  "ex_inflight = \<lparr>lf_contents = [7, 0, 0], lf_ptr = True, lf_index = 3, lf_size = 3\<rparr>"

definition ex_one :: "int lfstack" where
  "ex_one = \<lparr>lf_contents = [7, 0, 0], lf_ptr = True, lf_index = 2, lf_size = 3\<rparr>"

text \<open>An \<open>lfstack<int>\<close> after \<open>nonconcurrent_resize(2147483650)\<close>, that is
  \<open>2^31 + 2\<close>, holding \<open>2^31 - 1\<close> values with the writer flag set: the control word is
  \<open>0xFFFFFFFF\<close>, the count \<open>2147483647\<close>.\<close>

definition ex_wrap :: "int lfstack" where
  "ex_wrap = \<lparr>lf_contents = replicate 2147483650 0, lf_ptr = True, lf_index = 4294967295,
              lf_size = 2147483650\<rparr>"

text \<open>The \<open>expected\<close> operand of the compare-and-swap a thread is about to run.\<close>

fun cas_expected :: "'a lfthread \<Rightarrow> u32 option" where
  "cas_expected (Acquire_cas t index_copy) = Some index_copy"
| "cas_expected (Push_cas t index_copy) = Some index_copy"
| "cas_expected (Pop_cas dest index_copy) = Some index_copy"
| "cas_expected _ = None"

text \<open>A \<open>stack<int>\<close> after \<open>resize(2)\<close> and an \<open>lfstack<int>\<close> after
  \<open>nonconcurrent_resize(2)\<close>.\<close>

definition plain2 :: "int stack" where
  "plain2 = \<lparr>s_contents = [0, 0], s_ptr = True, s_index = 0, s_size = 0\<rparr>"

definition lf2 :: "int lfstack" where
  "lf2 = \<lparr>lf_contents = [0, 0], lf_ptr = True, lf_index = 0, lf_size = 2\<rparr>"

text \<open>The test of \<open>main\<close> (lines 207-218, repeated for each class), followed by a fourth
  \<open>try_pop\<close>; \<open>r\<close> starts at \<open>-1\<close>. The three stacks after resizing to 100.\<close>

definition scenario :: "int op list" where
  "scenario = [Push 1, Push 2, Push 3, Try_pop, Try_pop, Try_pop, Try_pop]"

definition plain100 :: "int stack" where
  "plain100 = \<lparr>s_contents = replicate 100 0, s_ptr = True, s_index = 0, s_size = 0\<rparr>"

definition guarded100 :: "int lstack" where
  "guarded100 = \<lparr>wrapped = plain100, mx = False\<rparr>"

definition lf100 :: "int lfstack" where
  "lf100 = \<lparr>lf_contents = replicate 100 0, lf_ptr = True, lf_index = 0, lf_size = 100\<rparr>"

text \<open>A \<open>stack<int>\<close> after \<open>resize(4294967298)\<close>, that is \<open>2^32 + 2\<close>.\<close>

definition plain_big :: "int stack" where
  "plain_big = \<lparr>s_contents = replicate 4294967298 0, s_ptr = True, s_index = 0, s_size = 0\<rparr>"

section \<open>The control word: bits and arithmetic\<close>

lemma mask_fe: "(0xfffffffe :: u32) = NOT 1" by simp

lemma bit_clean_index: "bit (clean_index i) n = (bit i n \<and> 0 < n)"
  unfolding clean_index_def mask_fe by (cases n) (auto simp add: bit_simps dest: bit_imp_le_length)

lemma bit_flag_index: "bit (flag_index i) n = (bit i n \<or> n = 0)"
  unfolding flag_index_def by (auto simp add: bit_simps)

lemma bit_read_index: "bit (read_index i) n = bit i (Suc n)"
  unfolding read_index_def by (simp add: bit_simps)

lemma clean_index_double: "clean_index i = 2 * read_index i"
  by (rule bit_word_eqI) (auto simp add: bit_clean_index bit_read_index bit_double_iff)

lemma read_clean: "read_index (clean_index i) = read_index i"
  by (rule bit_word_eqI) (auto simp add: bit_clean_index bit_read_index)

lemma read_flag: "read_index (flag_index i) = read_index i"
  by (rule bit_word_eqI) (auto simp add: bit_flag_index bit_read_index)

lemma clean_flag: "clean_index (flag_index i) = clean_index i"
  by (rule bit_word_eqI) (auto simp add: bit_flag_index bit_clean_index)

lemma unat_read_index: "unat (read_index i) = unat i div 2"
  unfolding read_index_def by (simp add: drop_bit_eq_div unat_div)

lemma unat_clean_index: "unat (clean_index i) = 2 * (unat i div 2)"
proof -
  have "unat i div 2 * 2 < 2 ^ 32" using unsigned_less [of i, where 'a = nat] by simp
  thus ?thesis
  unfolding clean_index_double by (simp add: unat_read_index unat_word_ariths)
qed

lemma is_zero_clean: "is_zero (clean_index i) = (read_index i = 0)"
proof -
  have "is_zero (clean_index i) = (unat (clean_index i) < 2)"
    by (simp add: is_zero_def word_less_nat_alt)
  also have "\<dots> = (unat (read_index i) = 0)"
    by (simp add: unat_clean_index unat_read_index)
  also have "\<dots> = (read_index i = 0)"
    by (simp add: unat_eq_0)
  finally show ?thesis .
qed

lemma clean_ge_2: "\<not> is_zero (clean_index i) \<Longrightarrow> 2 \<le> clean_index i"
  by (simp add: is_zero_def not_less)

lemma unat_decrement: "2 \<le> (i::u32) \<Longrightarrow> unat (i - 2) = unat i - 2"
  by (simp add: unat_sub)

lemma read_decrement:
  assumes "\<not> is_zero (clean_index i)"
  shows "unat (read_index (clean_index i - 2)) = unat (read_index i) - 1"
proof -
  have "unat (clean_index i - 2) = unat (clean_index i) - 2"
    using assms by (simp add: unat_decrement clean_ge_2)
  then show ?thesis
    by (simp add: unat_read_index unat_clean_index)
qed

lemma increment_clean: "increment_index (clean_index i) = push_bit 1 (read_index i + 1)"
  unfolding increment_index_def clean_index_double by (simp add: push_bit_eq_mult algebra_simps)

section \<open>A call run by one thread alone\<close>

lemma run_ended: "ended p \<Longrightarrow> run p s = Some (p, s)"
  by (subst run.simps) simp

lemma run_step: "\<not> ended p \<Longrightarrow> run p s = run (fst (step p s)) (snd (step p s))"
  by (subst run.simps) simp

text \<open>\<open>push\<close> run by one thread: the assertion of line 169, then
  \<open>acquire_write_rights\<close> sets the flag and flows off its end.\<close>

lemma lfstack_push_eq:
  "lfstack_push t s =
     (if \<not> lf_ptr s then Some (Abort AssertionFailed, s)
      else Some (Abort UndefinedBehaviour, s\<lparr>lf_index := flag_index (lf_index s)\<rparr>))"
  unfolding lfstack_push_def
  by (simp add: run_step run_ended compare_exchange_strong_def)

lemma pop_spin:
  assumes flag: "bit (lf_index s0) 0" and nz: "\<not> is_zero (clean_index (lf_index s0))"
    and inb: "unat (read_index (lf_index s0)) - 1 < length (lf_contents s0)"
  shows "run p s = Some r \<Longrightarrow> \<not> spinning s0 p s"
proof (rule run.raw_induct [where P = "\<lambda>p s r. \<not> spinning s0 p s"], goal_cases)
  case (1 run p s r)
  show ?case
  proof
    assume sp: "spinning s0 p s"
    have ne: "lf_index s0 \<noteq> clean_index (lf_index s0)"
      using flag by (metis bit_clean_index less_numeral_extra(3))
    have pos: "0 < clean_index (lf_index s0)"
      using nz by (auto simp add: is_zero_def word_neq_0_conv [symmetric])
    have inb': "unat (read_index (clean_index (lf_index s0) - 2)) < length (lf_contents s0)"
      using inb nz by (simp add: read_decrement)
    have "spinning s0 (fst (step p s)) (snd (step p s))" and "\<not> ended p"
      using sp nz ne pos inb'
      by (cases p; simp add: Let_def decrement_index_def compare_exchange_strong_def)+
    with 1 show False by auto
  qed
qed

lemma clean_unflagged: "\<not> bit i 0 \<Longrightarrow> clean_index i = i"
  by (rule bit_word_eqI) (auto simp add: bit_clean_index intro: ccontr)

lemma lfstack_try_pop_eq:
  "lfstack_try_pop dest s =
     (if \<not> lf_ptr s then Some (Abort AssertionFailed, s)
      else if is_zero (clean_index (lf_index s)) then Some (Pop_return False dest, s)
      else if \<not> (unat (read_index (lf_index s)) - 1 < length (lf_contents s))
        then Some (Abort UndefinedBehaviour, s)
      else if bit (lf_index s) 0 then None
      else Some (Pop_return True (lf_contents s ! (unat (read_index (lf_index s)) - 1)),
                 s\<lparr>lf_index := lf_index s - 2\<rparr>))"
proof -
  consider (null) "\<not> lf_ptr s"
    | (empty) "lf_ptr s" "is_zero (clean_index (lf_index s))"
    | (oob) "lf_ptr s" "\<not> is_zero (clean_index (lf_index s))"
         "\<not> (unat (read_index (lf_index s)) - 1 < length (lf_contents s))"
    | (spin) "lf_ptr s" "\<not> is_zero (clean_index (lf_index s))"
         "unat (read_index (lf_index s)) - 1 < length (lf_contents s)" "bit (lf_index s) 0"
    | (pop) "lf_ptr s" "\<not> is_zero (clean_index (lf_index s))"
         "unat (read_index (lf_index s)) - 1 < length (lf_contents s)" "\<not> bit (lf_index s) 0"
    by blast
  then show ?thesis
  proof cases
    case null
    then show ?thesis by (simp add: lfstack_try_pop_def run_step run_ended)
  next
    case empty
    then show ?thesis by (simp add: lfstack_try_pop_def run_step run_ended)
  next
    case oob
    moreover have "0 < clean_index (lf_index s)"
      using oob(2) by (auto simp add: is_zero_def word_neq_0_conv [symmetric])
    ultimately show ?thesis
      by (simp add: lfstack_try_pop_def run_step run_ended decrement_index_def read_decrement)
  next
    case spin
    have "run (Pop_load dest) s \<noteq> Some r" for r
      using pop_spin [OF spin(4) spin(2) spin(3), of "Pop_load dest" s r] by auto
    then have "run (Pop_load dest) s = None"
      by (cases "run (Pop_load dest) s") auto
    with spin show ?thesis by (simp add: lfstack_try_pop_def run_step)
  next
    case pop
    moreover have "0 < clean_index (lf_index s)"
      using pop(2) by (auto simp add: is_zero_def word_neq_0_conv [symmetric])
    moreover have "clean_index (lf_index s) = lf_index s"
      using pop(4) by (rule clean_unflagged)
    ultimately show ?thesis
      using read_decrement [OF pop(2)]
      by (simp add: lfstack_try_pop_def run_step run_ended decrement_index_def
          compare_exchange_strong_def)
  qed
qed

section \<open>Invariants under every interleaving\<close>

lemma step_size: "lf_size (snd (step p s)) = lf_size s"
  by (cases p) (auto simp add: Let_def compare_exchange_strong_def split: sum.splits)

lemma clean_even: "\<not> bit (clean_index i) 0"
  by (simp add: bit_clean_index)

lemma step_local_inv: "local_inv sz p \<Longrightarrow> sz = lf_size s \<Longrightarrow> local_inv sz (fst (step p s))"
  by (cases p)
    (auto simp add: Let_def compare_exchange_strong_def clean_ge_2 clean_even split: sum.splits)

lemma count_after_push:
  assumes "read_index i < sz - 1"
  shows "read_index (increment_index (clean_index i)) \<le> sz - 1"
proof -
  have "unat (clean_index i + 2) \<le> unat (clean_index i) + 2"
    by (simp add: unat_word_ariths)
  then have "unat (read_index (increment_index (clean_index i))) \<le> unat (read_index i) + 1"
    by (simp add: increment_index_def unat_read_index unat_clean_index)
  moreover have "unat (read_index i) < unat (sz - 1)"
    using assms by (simp add: word_less_nat_alt)
  ultimately show ?thesis
    by (simp add: word_le_nat_alt)
qed

lemma count_after_pop:
  assumes "2 \<le> i"
  shows "read_index (i - 2) \<le> read_index i"
  using assms by (simp add: word_le_nat_alt unat_read_index unat_decrement)

lemma step_ctrl_inv:
  assumes "local_inv (lf_size s) p" and "read_index (lf_index s) \<le> lf_size s - 1"
  shows "read_index (lf_index (snd (step p s))) \<le> lf_size s - 1"
proof (cases p)
  case (Acquire_cas t ic)
  then show ?thesis using assms by (auto simp add: compare_exchange_strong_def read_flag)
next
  case (Push_cas t ic)
  then show ?thesis using assms by (auto simp add: compare_exchange_strong_def count_after_push)
next
  case (Pop_cas d ic)
  moreover have "read_index (ic - 2) \<le> lf_size s - 1" if "2 \<le> ic" "lf_index s = ic"
    using that assms(2) count_after_pop [of ic] by simp
  ultimately show ?thesis using assms
    by (auto simp add: compare_exchange_strong_def decrement_index_def)
qed (use assms in \<open>auto simp add: Let_def split: sum.splits\<close>)

lemma fire_size: "lf_size (snd (fire e sys)) = lf_size (snd sys)"
  by (cases e; cases sys) (simp_all add: step_size)

lemma fire_inv:
  assumes "sys_inv sys"
  shows "sys_inv (fire e sys)"
proof (cases sys)
  case (Pair ths s)
  have loc: "\<forall>p \<in> set ths. local_inv (lf_size s) p" and ctrl: "read_index (lf_index s) \<le> lf_size s - 1"
    using assms Pair by (simp_all add: sys_inv_def)
  have upd: "\<forall>q \<in> set (ths[i := p]). local_inv (lf_size s) q" if "local_inv (lf_size s) p" for i p
    using loc that set_update_subset_insert [of ths i p] by auto
  show ?thesis
  proof (cases e)
    case (Call_push i t)
    then show ?thesis using Pair loc ctrl upd [of "Push_entry t" i] by (simp add: sys_inv_def)
  next
    case (Call_try_pop i d)
    then show ?thesis using Pair loc ctrl upd [of "Pop_entry d" i] by (simp add: sys_inv_def)
  next
    case (Step i)
    show ?thesis
    proof (cases "\<not> list_ex aborted ths \<and> i < length ths")
      case True
      then have "local_inv (lf_size s) (ths ! i)" using loc by simp
      then have "local_inv (lf_size s) (fst (step (ths ! i) s))"
        and "read_index (lf_index (snd (step (ths ! i) s))) \<le> lf_size s - 1"
        using ctrl by (simp_all add: step_local_inv step_ctrl_inv)
      then show ?thesis using Pair Step True upd [of "fst (step (ths ! i) s)" i]
        by (simp add: sys_inv_def step_size)
    next
      case False
      then show ?thesis using Pair Step assms by auto
    qed
  qed
qed

lemma fire_local_inv:
  assumes "\<forall>p \<in> set (fst sys). local_inv (lf_size (snd sys)) p"
  shows "\<forall>p \<in> set (fst (fire e sys)). local_inv (lf_size (snd (fire e sys))) p"
proof (cases sys)
  case (Pair ths s)
  have loc: "\<forall>p \<in> set ths. local_inv (lf_size s) p"
    using assms Pair by simp
  have upd: "\<forall>q \<in> set (ths[i := p]). local_inv (lf_size s) q" if "local_inv (lf_size s) p" for i p
    using loc that set_update_subset_insert [of ths i p] by auto
  show ?thesis
  proof (cases e)
    case (Call_push i t)
    then show ?thesis using Pair loc upd [of "Push_entry t" i] by simp
  next
    case (Call_try_pop i d)
    then show ?thesis using Pair loc upd [of "Pop_entry d" i] by simp
  next
    case (Step i)
    show ?thesis
    proof (cases "\<not> list_ex aborted ths \<and> i < length ths")
      case True
      then have "local_inv (lf_size s) (ths ! i)" using loc by simp
      then have "local_inv (lf_size s) (fst (step (ths ! i) s))"
        by (simp add: step_local_inv)
      then show ?thesis using Pair Step True upd [of "fst (step (ths ! i) s)" i]
        by (simp add: step_size)
    next
      case False
      then show ?thesis using Pair Step loc by auto
    qed
  qed
qed

lemma exec_local_inv:
  "\<forall>p \<in> set (fst sys). local_inv (lf_size (snd sys)) p \<Longrightarrow>
   \<forall>p \<in> set (fst (exec evs sys)). local_inv (lf_size (snd (exec evs sys))) p"
  by (induction evs arbitrary: sys) (simp_all add: fire_local_inv)

lemma exec_inv: "sys_inv sys \<Longrightarrow> sys_inv (exec evs sys)"
  by (induction evs arbitrary: sys) (simp_all add: fire_inv)

lemma exec_size: "lf_size (snd (exec evs sys)) = lf_size (snd sys)"
  by (induction evs arbitrary: sys) (simp_all add: fire_size)

lemma idle_inv: "read_index (lf_index s) \<le> lf_size s - 1 \<Longrightarrow> sys_inv (replicate k Idle, s)"
  by (simp add: sys_inv_def)

lemma resize_initialized:
  assumes "lfstack_nonconcurrent_resize z n s0 = Inr s"
  shows "initialized n s" and "lf_index s = 0"
  using assms
  by (auto simp add: lfstack_nonconcurrent_resize_def initialized_def vector_resize_def Let_def
      split: if_splits)

lemma resize_sys_inv:
  assumes "lfstack_nonconcurrent_resize z n s0 = Inr s"
  shows "sys_inv (replicate k Idle, s)"
  using resize_initialized(2) [OF assms] by (simp add: idle_inv read_index_def)

lemma ex3_resize: "lfstack_nonconcurrent_resize 0 3 (lfstack_new i0) = Inr ex3"
  by (simp add: lfstack_nonconcurrent_resize_def lfstack_new_def vector_resize_def ex3_def
      numeral_3_eq_3)

lemmas word_eval =
  compare_exchange_strong_def flag_index_def clean_index_def read_index_def
  increment_index_def decrement_index_def is_zero_def

text \<open>
  C10. In \<open>lfstack::try_pop\<close>, \<open>decrement_index\<close> is only called with an argument that
  is at least 2 and even: in every interleaving of calls, from any state of the stack (so
  also on a stack set up by \<open>nonconcurrent_resize\<close>, whatever it holds), a thread at one
  of the two call sites holds such an \<open>index_copy\<close>. So the assertion \<open>i > 0\<close> holds and
  \<open>i - 2\<close> does not wrap around.
\<close>

theorem decrement_index_never_underflows:
  assumes "p \<in> set (fst (exec evs (replicate k Idle, s)))"
    and "decrement_index_arg p = Some i"
  shows "2 \<le> i \<and> \<not> bit i 0 \<and> decrement_index i = Inr (i - 2) \<and> unat (i - 2) = unat i - 2"
proof -
  have "\<forall>q \<in> set (fst (exec evs (replicate k Idle, s))).
          local_inv (lf_size (snd (exec evs (replicate k Idle, s)))) q"
    by (rule exec_local_inv) simp
  then have "local_inv (lf_size (snd (exec evs (replicate k Idle, s)))) p"
    using assms(1) by simp
  then have i: "2 \<le> i" "\<not> bit i 0"
    using assms(2) by (cases p; simp)+
  then have "0 < i" by (auto simp add: word_less_nat_alt word_le_nat_alt)
  with i show ?thesis by (simp add: decrement_index_def unat_decrement)
qed

theorem decrement_index_never_underflows_witness:
  "Pop_read (- 1) 2 \<in> set (fst (exec [Call_try_pop 0 (- 1), Step 0, Step 0] ([Idle], ex_one))) \<and>
   decrement_index_arg (Pop_read (- 1 :: int) 2) = Some 2 \<and>
   decrement_index 2 = Inr 0 \<and> unat (2 - 2 :: u32) = unat (2 :: u32) - 2"
proof -
  have e: "exec [Call_try_pop 0 (- 1), Step 0, Step 0] ([Idle], ex_one)
           = ([Pop_read (- 1) 2], ex_one)"
    by (simp add: ex_one_def word_eval)
  have rep: "replicate 1 (Idle :: int lfthread) = [Idle]" by simp
  have m: "Pop_read (- 1) 2
             \<in> set (fst (exec [Call_try_pop 0 (- 1), Step 0, Step 0] (replicate 1 Idle, ex_one)))"
    unfolding rep e by simp
  have a: "decrement_index_arg (Pop_read (- 1 :: int) 2) = Some 2" by simp
  show ?thesis
    using decrement_index_never_underflows [OF m a] m a unfolding rep by simp
qed

section \<open>The compare-and-swap of try\_pop\<close>

lemma decrement_clean:
  assumes "\<not> is_zero (clean_index i)"
  shows "decrement_index (clean_index i) = Inr (push_bit 1 (read_index i - 1))"
proof -
  have "0 < clean_index i"
    using assms by (auto simp add: is_zero_def word_neq_0_conv [symmetric])
  then show ?thesis
    by (simp add: decrement_index_def clean_index_double push_bit_eq_mult algebra_simps)
qed

lemma even_push_bit: "\<not> bit (push_bit 1 (w :: u32)) 0"
  by (simp add: bit_0)

lemma flagged_ne_clean: "bit i 0 \<Longrightarrow> i \<noteq> clean_index j"
  using clean_even [of j] by auto

lemma pop_load_step:
  "\<not> is_zero (clean_index (lf_index s)) \<Longrightarrow>
   step (Pop_load dest) s = (Pop_read dest (clean_index (lf_index s)), s)"
  by (simp add: Let_def)

lemma pop_read_step:
  assumes "\<not> is_zero (clean_index i)" and "unat (read_index i) - 1 < length (lf_contents s)"
  shows "step (Pop_read dest (clean_index i)) s =
           (Pop_cas (lf_contents s ! (unat (read_index i) - 1)) (clean_index i), s)"
proof -
  have "decrement_index (clean_index i) = Inr (clean_index i - 2)"
    using decrement_clean [OF assms(1)] by (simp add: decrement_index_def split: if_splits)
  then show ?thesis
    using assms(2) read_decrement [OF assms(1)] by (simp add: Let_def)
qed

lemma pop_cas_step:
  assumes "\<not> is_zero (clean_index i)"
  shows "step (Pop_cas dest (clean_index i)) s =
           (if lf_index s = clean_index i
            then (Pop_return True dest, s\<lparr>lf_index := push_bit 1 (read_index i - 1)\<rparr>)
            else (Pop_load dest, s))"
  unfolding step.simps decrement_clean [OF assms] by (simp add: compare_exchange_strong_def)

text \<open>
  C1 (as amended). In \<open>lfstack::try_pop\<close>, when the masked control word is not zero, the
  compare-and-swap expects the masked word (the observed word with the flag bit cleared,
  not the raw word) and stores \<open>count - 1\<close> shifted left by one, with the flag bit 0. It
  succeeds exactly when the control word equals the masked word at that moment, never
  while the flag bit is set; on success \<open>try_pop\<close> returns true with \<open>dest\<close> holding
  the slot \<open>count - 1\<close> it read. The three steps hold for any shared states \<open>s\<close>, \<open>s1\<close>,
  \<open>s2\<close> met at the load, the read and the compare-and-swap.
\<close>

theorem try_pop_cas_from_masked_word:
  assumes "\<not> is_zero (clean_index (lf_index s))"
  shows "step (Pop_load dest) s = (Pop_read dest (clean_index (lf_index s)), s) \<and>
         (unat (read_index (lf_index s)) - 1 < length (lf_contents s1) \<longrightarrow>
            step (Pop_read dest (clean_index (lf_index s))) s1 =
              (Pop_cas (lf_contents s1 ! (unat (read_index (lf_index s)) - 1))
                 (clean_index (lf_index s)), s1)) \<and>
         step (Pop_cas d (clean_index (lf_index s))) s2 =
           (if lf_index s2 = clean_index (lf_index s)
            then (Pop_return True d, s2\<lparr>lf_index := push_bit 1 (read_index (lf_index s) - 1)\<rparr>)
            else (Pop_load d, s2)) \<and>
         \<not> bit (push_bit 1 (read_index (lf_index s) - 1)) 0 \<and>
         (bit (lf_index s2) 0 \<longrightarrow> lf_index s2 \<noteq> clean_index (lf_index s))"
proof (intro conjI impI)
  show "step (Pop_load dest) s = (Pop_read dest (clean_index (lf_index s)), s)"
    by (rule pop_load_step [OF assms])
  show "step (Pop_read dest (clean_index (lf_index s))) s1 =
          (Pop_cas (lf_contents s1 ! (unat (read_index (lf_index s)) - 1))
             (clean_index (lf_index s)), s1)"
    if "unat (read_index (lf_index s)) - 1 < length (lf_contents s1)"
    using assms that by (rule pop_read_step)
  show "step (Pop_cas d (clean_index (lf_index s))) s2 =
           (if lf_index s2 = clean_index (lf_index s)
            then (Pop_return True d, s2\<lparr>lf_index := push_bit 1 (read_index (lf_index s) - 1)\<rparr>)
            else (Pop_load d, s2))"
    by (rule pop_cas_step [OF assms])
  show "\<not> bit (push_bit 1 (read_index (lf_index s) - 1)) 0"
    by (rule even_push_bit)
  show "lf_index s2 \<noteq> clean_index (lf_index s)" if "bit (lf_index s2) 0"
    using that by (rule flagged_ne_clean)
qed

theorem try_pop_cas_from_masked_word_witness:
  "\<not> is_zero (clean_index (lf_index ex_one)) \<and>
   step (Pop_load (- 1)) ex_one = (Pop_read (- 1) 2, ex_one) \<and>
   step (Pop_read (- 1) 2) ex_one = (Pop_cas 7 2, ex_one) \<and>
   step (Pop_cas 7 2) ex_one = (Pop_return True 7, ex_one\<lparr>lf_index := 0\<rparr>) \<and>
   step (Pop_cas 7 2) ex_inflight = (Pop_load 7, ex_inflight)"
proof -
  have nz: "\<not> is_zero (clean_index (lf_index ex_one))"
    by (simp add: ex_one_def word_eval)
  show ?thesis
    using nz try_pop_cas_from_masked_word [OF nz, of "- 1" ex_one 7 ex_one]
      try_pop_cas_from_masked_word [OF nz, of "- 1" ex_one 7 ex_inflight]
    by (simp add: ex_one_def ex_inflight_def word_eval)
qed

text \<open>
  C1 as stated fails. The stack holds one value (control word 2). Thread 1 calls
  \<open>push(8)\<close> and its \<open>acquire_write_rights\<close> sets the flag, so the control word is 3.
  Thread 0 then runs \<open>try_pop\<close>: it loads 3 and its compare-and-swap expects 2, not the
  raw value 3, so it fails although the control word still is 3; alone on that state,
  \<open>try_pop\<close> never returns.
\<close>

theorem try_pop_cas_counterexample:
  "exec [Call_push 1 8, Step 1, Step 1, Step 1,
         Call_try_pop 0 (- 1), Step 0, Step 0, Step 0] ([Idle, Idle], ex_one)
     = ([Pop_cas 7 2, Acquire_end 8], ex_inflight) \<and>
   cas_expected (Pop_cas (7 :: int) 2) = Some 2 \<and> lf_index ex_inflight = 3 \<and>
   \<not> is_zero (clean_index (lf_index ex_inflight)) \<and>
   step (Pop_cas 7 2) ex_inflight = (Pop_load 7, ex_inflight) \<and>
   lfstack_try_pop (- 1) ex_inflight = None"
  by (simp add: ex_one_def ex_inflight_def word_eval lfstack_try_pop_eq bit_0)

section \<open>The publishing compare-and-swap of push\<close>

lemma assertion_in_bounds:
  assumes "initialized n s" and "read_index i < lf_size s - 1"
  shows "unat (read_index i) < length (lf_contents s)"
proof (cases "lf_size s = 0")
  case True
  have "unat (read_index i) < 2 ^ 32"
    using unsigned_less [of "read_index i", where 'a = nat] by simp
  moreover have "(of_nat n :: u32) = 0" using assms(1) True by (simp add: initialized_def)
  then have "2 ^ 32 dvd n" by (simp add: word_of_nat_eq_0_iff)
  then have "2 ^ 32 \<le> n" using assms(1) by (auto simp add: initialized_def dest: dvd_imp_le)
  ultimately show ?thesis using assms(1) by (simp add: initialized_def)
next
  case False
  then have "unat (lf_size s - 1) = unat (lf_size s) - 1"
    by (simp add: unat_minus_one)
  moreover have "unat (lf_size s) \<le> n"
    using assms(1) by (simp add: initialized_def unat_of_nat)
  moreover have "unat (read_index i) < unat (lf_size s - 1)"
    using assms(2) by (simp add: word_less_nat_alt)
  ultimately show ?thesis using assms(1) by (simp add: initialized_def)
qed

lemma push_cas_step:
  "step (Push_cas t i) s =
     (if lf_index s = i then (Push_return, s\<lparr>lf_index := push_bit 1 (read_index i + 1)\<rparr>)
      else (Push_load t, s))"
  unfolding step.simps increment_clean by (simp add: compare_exchange_strong_def)

lemma push_return_only_by_cas:
  assumes "fst (step p s) = Push_return" and "p \<noteq> Push_return"
  shows "\<exists>t. p = Push_cas t (lf_index s)"
  using assms
  by (cases p) (auto simp add: Let_def compare_exchange_strong_def split: if_splits sum.splits)

lemma unat_count_incremented:
  assumes "unat (read_index i) + 1 < 2 ^ 31"
  shows "unat (read_index (push_bit 1 (read_index i + 1))) = unat (read_index i) + 1"
proof -
  have "unat (read_index i + 1) = unat (read_index i) + 1"
    using assms by (simp add: unat_word_ariths)
  moreover have "unat (2 * (read_index i + 1)) = 2 * unat (read_index i + 1)"
    using assms calculation by (simp add: unat_word_ariths)
  ultimately have "unat (read_index (2 * (read_index i + 1))) = unat (read_index i) + 1"
    unfolding unat_read_index [of "2 * (read_index i + 1)"] by simp
  then show ?thesis
    by (simp add: push_bit_eq_mult mult.commute)
qed

lemma push_load_step:
  "read_index (lf_index s) < lf_size s - 1 \<Longrightarrow>
   step (Push_load t) s = (Push_store t (lf_index s), s)"
  by (simp add: Let_def)

lemma push_store_step:
  assumes "initialized n s" and "read_index i < lf_size s - 1"
  shows "step (Push_store t i) s =
           (Push_cas t i, s\<lparr>lf_contents := (lf_contents s)[unat (read_index i) := t]\<rparr>)"
  using assertion_in_bounds [OF assms] by (simp add: Let_def read_clean)

lemma count_incremented:
  assumes "unat (read_index i) + 1 < 2 ^ 31"
  shows "read_index (push_bit 1 (read_index i + 1)) = read_index i + 1"
proof -
  have "unat (read_index i + 1) = unat (read_index i) + 1"
    using assms by (simp add: unat_word_ariths)
  then have "unat (read_index (push_bit 1 (read_index i + 1))) = unat (read_index i + 1)"
    using unat_count_incremented [OF assms] by simp
  then show ?thesis
    by (simp only: word_unat_eq_iff)
qed

text \<open>
  C2 (as amended). On an \<open>lfstack\<close> whose storage is initialised, when the assertion of
  \<open>push\<close> holds for the control word it loads (count below \<open>size - 1\<close>) and the count
  plus one is below \<open>2^31\<close>: \<open>push\<close> writes the value to the slot of that count, and its
  compare-and-swap, from any shared state in which it succeeds, ends the call and leaves
  a control word whose count field is the observed count plus one and whose flag bit is
  0. No other step ends a \<open>push\<close>. (That a call of \<open>push\<close> reaches this loop is not
  claimed: see \<open>Acquire_end\<close>.)
\<close>

theorem push_publishes_count_plus_one:
  assumes "initialized n (s :: 'a lfstack)" and "read_index (lf_index s) < lf_size s - 1"
    and "unat (read_index (lf_index s)) + 1 < 2 ^ 31"
  shows "step (Push_load t) s = (Push_store t (lf_index s), s) \<and>
         step (Push_store t (lf_index s)) s =
           (Push_cas t (lf_index s),
            s\<lparr>lf_contents := (lf_contents s)[unat (read_index (lf_index s)) := t]\<rparr>) \<and>
         (\<forall>s2 :: 'a lfstack. lf_index s2 = lf_index s \<longrightarrow>
            step (Push_cas t (lf_index s)) s2 =
              (Push_return, s2\<lparr>lf_index := push_bit 1 (read_index (lf_index s) + 1)\<rparr>)) \<and>
         read_index (push_bit 1 (read_index (lf_index s) + 1)) = read_index (lf_index s) + 1 \<and>
         unat (read_index (push_bit 1 (read_index (lf_index s) + 1))) =
           unat (read_index (lf_index s)) + 1 \<and>
         \<not> bit (push_bit 1 (read_index (lf_index s) + 1)) 0 \<and>
         (\<forall>p (s2 :: 'a lfstack). fst (step p s2) = Push_return \<and> p \<noteq> Push_return \<longrightarrow>
            (\<exists>t'. p = Push_cas t' (lf_index s2)))"
proof (intro conjI allI impI)
  show "step (Push_load t) s = (Push_store t (lf_index s), s)"
    using assms(2) by (rule push_load_step)
  show "step (Push_store t (lf_index s)) s =
           (Push_cas t (lf_index s),
            s\<lparr>lf_contents := (lf_contents s)[unat (read_index (lf_index s)) := t]\<rparr>)"
    using assms(1,2) by (rule push_store_step)
  show "step (Push_cas t (lf_index s)) s2 =
              (Push_return, s2\<lparr>lf_index := push_bit 1 (read_index (lf_index s) + 1)\<rparr>)"
    if "lf_index s2 = lf_index s" for s2 :: "'a lfstack"
    unfolding push_cas_step using that by simp
  show "read_index (push_bit 1 (read_index (lf_index s) + 1)) = read_index (lf_index s) + 1"
    using assms(3) by (rule count_incremented)
  show "unat (read_index (push_bit 1 (read_index (lf_index s) + 1))) =
          unat (read_index (lf_index s)) + 1"
    using assms(3) by (rule unat_count_incremented)
  show "\<not> bit (push_bit 1 (read_index (lf_index s) + 1)) 0"
    by (rule even_push_bit)
  show "\<exists>t'. p = Push_cas t' (lf_index s2)"
    if "fst (step p s2) = Push_return \<and> p \<noteq> Push_return" for p and s2 :: "'a lfstack"
    using that push_return_only_by_cas [of p s2] by simp
qed

lemma ex_inflight_initialized: "initialized 3 ex_inflight"
  by (simp add: initialized_def ex_inflight_def)

theorem push_publishes_count_plus_one_witness:
  "initialized 3 ex_inflight \<and> read_index (lf_index ex_inflight) < lf_size ex_inflight - 1 \<and>
   unat (read_index (lf_index ex_inflight)) + 1 < 2 ^ 31 \<and>
   lf_index ex_inflight = 3 \<and> read_index 3 = 1 \<and>
   step (Push_load 8) ex_inflight = (Push_store 8 3, ex_inflight) \<and>
   step (Push_store 8 3) ex_inflight
     = (Push_cas 8 3, ex_inflight\<lparr>lf_contents := [7, 8, 0]\<rparr>) \<and>
   step (Push_cas 8 3) (ex_inflight\<lparr>lf_contents := [7, 8, 0]\<rparr>)
     = (Push_return, ex_inflight\<lparr>lf_contents := [7, 8, 0], lf_index := 4\<rparr>) \<and>
   read_index 4 = 2 \<and> \<not> bit (4 :: u32) 0"
proof -
  have a: "read_index (lf_index ex_inflight) < lf_size ex_inflight - 1"
    by (simp add: ex_inflight_def read_index_def)
  have b: "unat (read_index (lf_index ex_inflight)) + 1 < 2 ^ 31"
    by (simp add: ex_inflight_def read_index_def)
  note t = push_publishes_count_plus_one [OF ex_inflight_initialized a b, of 8]
  have v: "lf_index ex_inflight = 3" "read_index 3 = 1" "read_index 4 = 2" "\<not> bit (4 :: u32) 0"
    "push_bit 1 (read_index (lf_index ex_inflight) + 1) = 4"
    "unat (read_index (lf_index ex_inflight)) = 1"
    by (simp_all add: ex_inflight_def read_index_def bit_0)
  have l: "step (Push_load 8) ex_inflight = (Push_store 8 3, ex_inflight)"
    using t [THEN conjunct1] unfolding v(1) .
  have "step (Push_store 8 (lf_index ex_inflight)) ex_inflight =
           (Push_cas 8 (lf_index ex_inflight),
            ex_inflight\<lparr>lf_contents := (lf_contents ex_inflight)[unat (read_index (lf_index ex_inflight)) := 8]\<rparr>)"
    using t [THEN conjunct2, THEN conjunct1] .
  moreover have "ex_inflight\<lparr>lf_contents := (lf_contents ex_inflight)[unat (read_index (lf_index ex_inflight)) := 8]\<rparr>
      = ex_inflight\<lparr>lf_contents := [7, 8, 0]\<rparr>"
    by (simp add: ex_inflight_def read_index_def)
  ultimately have w: "step (Push_store 8 3) ex_inflight
     = (Push_cas 8 3, ex_inflight\<lparr>lf_contents := [7, 8, 0]\<rparr>)"
    unfolding v(1) by (simp del: step.simps)
  have "lf_index (ex_inflight\<lparr>lf_contents := [7, 8, 0]\<rparr>) = lf_index ex_inflight \<longrightarrow>
          step (Push_cas 8 (lf_index ex_inflight)) (ex_inflight\<lparr>lf_contents := [7, 8, 0]\<rparr>) =
            (Push_return, ex_inflight\<lparr>lf_contents := [7, 8, 0],
               lf_index := push_bit 1 (read_index (lf_index ex_inflight) + 1)\<rparr>)"
    using t [THEN conjunct2, THEN conjunct2, THEN conjunct1] by (rule spec)
  then have "lf_index (ex_inflight\<lparr>lf_contents := [7, 8, 0]\<rparr>) = lf_index ex_inflight \<longrightarrow>
          step (Push_cas 8 (lf_index ex_inflight)) (ex_inflight\<lparr>lf_contents := [7, 8, 0]\<rparr>) =
            (Push_return, ex_inflight\<lparr>lf_contents := [7, 8, 0], lf_index := 4\<rparr>)"
    unfolding v(5) .
  then have c: "step (Push_cas 8 3) (ex_inflight\<lparr>lf_contents := [7, 8, 0]\<rparr>)
     = (Push_return, ex_inflight\<lparr>lf_contents := [7, 8, 0], lf_index := 4\<rparr>)"
    using v(1) by (simp del: step.simps)
  show ?thesis
    using ex_inflight_initialized a b v(1-4) l w c by (simp del: step.simps)
qed

text \<open>
  C2 as stated fails at the top of the 31-bit count field. The storage of \<open>ex_wrap\<close> is
  initialised and the assertion of \<open>push\<close> holds for its control word (count
  \<open>2147483647\<close> below \<open>size - 1 = 2147483649\<close>). The compare-and-swap succeeds and stores
  \<open>0xFFFFFFFE + 2 = 0\<close>: the count field is then 0, not the observed count plus one.
\<close>

theorem push_publishes_counterexample:
  "initialized 2147483650 ex_wrap \<and>
   read_index (lf_index ex_wrap) = 2147483647 \<and> lf_size ex_wrap - 1 = 2147483649 \<and>
   read_index (lf_index ex_wrap) < lf_size ex_wrap - 1 \<and>
   step (Push_load 7) ex_wrap = (Push_store 7 4294967295, ex_wrap) \<and>
   step (Push_store 7 4294967295) ex_wrap
     = (Push_cas 7 4294967295,
        ex_wrap\<lparr>lf_contents := (replicate 2147483650 0)[2147483647 := 7]\<rparr>) \<and>
   step (Push_cas 7 4294967295)
       (ex_wrap\<lparr>lf_contents := (replicate 2147483650 0)[2147483647 := 7]\<rparr>)
     = (Push_return,
        ex_wrap\<lparr>lf_contents := (replicate 2147483650 0)[2147483647 := 7], lf_index := 0\<rparr>) \<and>
   read_index 0 = 0"
  by (simp add: initialized_def ex_wrap_def word_eval)

section \<open>The count field stays below the capacity\<close>

lemma push_preserves_count:
  assumes "read_index (lf_index s) \<le> lf_size s - 1" and "lfstack_push t s = Some (p, s')"
  shows "read_index (lf_index s') \<le> lf_size s' - 1"
  using assms unfolding lfstack_push_eq
  by (auto simp add: read_flag count_after_push split: if_splits)

lemma try_pop_preserves_count:
  assumes "read_index (lf_index s) \<le> lf_size s - 1" and "lfstack_try_pop dest s = Some (p, s')"
  shows "read_index (lf_index s') \<le> lf_size s' - 1"
proof -
  have "read_index (lf_index s - 2) \<le> lf_size s - 1"
    if "\<not> is_zero (clean_index (lf_index s))" "\<not> bit (lf_index s) 0"
  proof -
    have "2 \<le> lf_index s" using that clean_ge_2 [of "lf_index s"] by (simp add: clean_unflagged)
    then show ?thesis using count_after_pop [of "lf_index s"] assms(1) by simp
  qed
  then show ?thesis
    using assms unfolding lfstack_try_pop_eq by (auto split: if_splits)
qed

text \<open>
  C3. After \<open>nonconcurrent_resize(n)\<close>, in every interleaving of calls of \<open>push\<close> and
  \<open>try_pop\<close> by any number of threads, the count field of the control word never exceeds
  \<open>size - 1\<close> (computed in \<open>uint32_t\<close>, as the assertion of \<open>push\<close> does), and
  \<open>size\<close> stays \<open>n\<close>; a whole \<open>push\<close> and a whole \<open>try_pop\<close> run by one thread
  preserve the bound too. The bound is also preserved from any configuration that
  satisfies it, wherever the threads are: in particular by the compare-and-swap of a
  \<open>push\<close> whose assertion held for the word it loaded, and by the compare-and-swap of a
  \<open>try_pop\<close>.
\<close>

theorem count_never_exceeds_size_minus_one:
  assumes "lfstack_nonconcurrent_resize z n s0 = Inr (s :: 'a lfstack)"
  shows "read_index (lf_index (snd (exec evs (replicate k Idle, s))))
           \<le> lf_size (snd (exec evs (replicate k Idle, s))) - 1 \<and>
         lf_size (snd (exec evs (replicate k Idle, s))) = of_nat n \<and>
         (\<forall>t (s1 :: 'a lfstack) p s2. read_index (lf_index s1) \<le> lf_size s1 - 1 \<and>
              lfstack_push t s1 = Some (p, s2) \<longrightarrow> read_index (lf_index s2) \<le> lf_size s2 - 1) \<and>
         (\<forall>dest (s1 :: 'a lfstack) p s2. read_index (lf_index s1) \<le> lf_size s1 - 1 \<and>
              lfstack_try_pop dest s1 = Some (p, s2) \<longrightarrow> read_index (lf_index s2) \<le> lf_size s2 - 1) \<and>
         (\<forall>ths (s1 :: 'a lfstack). read_index (lf_index s1) \<le> lf_size s1 - 1 \<and>
              (\<forall>p \<in> set ths. local_inv (lf_size s1) p) \<longrightarrow>
              read_index (lf_index (snd (exec evs (ths, s1))))
                \<le> lf_size (snd (exec evs (ths, s1))) - 1)"
proof (intro conjI allI impI)
  have "sys_inv (exec evs (replicate k Idle, s))"
    using assms by (simp add: exec_inv resize_sys_inv)
  then show "read_index (lf_index (snd (exec evs (replicate k Idle, s))))
           \<le> lf_size (snd (exec evs (replicate k Idle, s))) - 1"
    by (simp add: sys_inv_def)
  show "lf_size (snd (exec evs (replicate k Idle, s))) = of_nat n"
    using resize_initialized(1) [OF assms] by (simp add: exec_size initialized_def)
  show "read_index (lf_index s2) \<le> lf_size s2 - 1"
    if "read_index (lf_index s1) \<le> lf_size s1 - 1 \<and> lfstack_push t s1 = Some (p, s2)"
    for t s1 p and s2 :: "'a lfstack"
    using that push_preserves_count [of s1 t p s2] by simp
  show "read_index (lf_index s2) \<le> lf_size s2 - 1"
    if "read_index (lf_index s1) \<le> lf_size s1 - 1 \<and> lfstack_try_pop dest s1 = Some (p, s2)"
    for dest s1 p and s2 :: "'a lfstack"
    using that try_pop_preserves_count [of s1 dest p s2] by simp
  show "read_index (lf_index (snd (exec evs (ths, s1))))
          \<le> lf_size (snd (exec evs (ths, s1))) - 1"
    if "read_index (lf_index s1) \<le> lf_size s1 - 1 \<and> (\<forall>p \<in> set ths. local_inv (lf_size s1) p)"
    for ths and s1 :: "'a lfstack"
  proof -
    have "sys_inv (ths, s1)" using that by (simp add: sys_inv_def)
    then have "sys_inv (exec evs (ths, s1))" by (rule exec_inv)
    then show ?thesis by (simp add: sys_inv_def)
  qed
qed

theorem count_never_exceeds_size_minus_one_witness:
  "lfstack_nonconcurrent_resize 0 3 (lfstack_new 5) = Inr ex3 \<and>
   exec [Call_push 0 7, Step 0, Step 0, Step 0, Call_try_pop 1 (- 1), Step 1, Step 1]
       ([Idle, Idle], ex3)
     = ([Acquire_end 7, Pop_return False (- 1)], ex3\<lparr>lf_index := 1\<rparr>) \<and>
   read_index (lf_index (ex3\<lparr>lf_index := 1\<rparr>)) \<le> lf_size (ex3\<lparr>lf_index := 1\<rparr>) - 1 \<and>
   read_index (lf_index ex_inflight) \<le> lf_size ex_inflight - 1 \<and>
   local_inv (lf_size ex_inflight) (Push_cas (8 :: int) 3) \<and>
   local_inv (lf_size ex_inflight) (Pop_read (- 1 :: int) 2) \<and>
   exec [Step 0, Step 1] ([Push_cas 8 3, Pop_read (- 1) 2], ex_inflight)
     = ([Push_return, Pop_cas 7 2], ex_inflight\<lparr>lf_index := 4\<rparr>) \<and>
   read_index (lf_index (ex_inflight\<lparr>lf_index := 4\<rparr>)) = 2 \<and>
   lf_size (ex_inflight\<lparr>lf_index := 4\<rparr>) - 1 = 2 \<and>
   read_index (lf_index (ex_inflight\<lparr>lf_index := 4\<rparr>))
     \<le> lf_size (ex_inflight\<lparr>lf_index := 4\<rparr>) - 1"
proof -
  have r: "lfstack_nonconcurrent_resize 0 3 (lfstack_new 5) = Inr ex3"
    by (rule ex3_resize)
  have rep: "replicate 2 (Idle :: int lfthread) = [Idle, Idle]"
    by (simp add: numeral_2_eq_2)
  have e: "exec [Call_push 0 7, Step 0, Step 0, Step 0, Call_try_pop 1 (- 1), Step 1, Step 1]
       ([Idle, Idle], ex3)
     = ([Acquire_end 7, Pop_return False (- 1)], ex3\<lparr>lf_index := 1\<rparr>)"
    by (simp add: ex3_def word_eval)
  have g: "exec [Step 0, Step 1] ([Push_cas 8 3, Pop_read (- 1) 2], ex_inflight)
     = ([Push_return, Pop_cas 7 2], ex_inflight\<lparr>lf_index := 4\<rparr>)"
    by (simp add: ex_inflight_def word_eval)
  have c1: "read_index (lf_index (ex3\<lparr>lf_index := 1\<rparr>)) \<le> lf_size (ex3\<lparr>lf_index := 1\<rparr>) - 1"
    using count_never_exceeds_size_minus_one [OF r, of
        "[Call_push 0 7, Step 0, Step 0, Step 0, Call_try_pop 1 (- 1), Step 1, Step 1]" 2,
        unfolded rep e snd_conv]
    by (rule conjunct1)
  have h: "read_index (lf_index ex_inflight) \<le> lf_size ex_inflight - 1 \<and>
           (\<forall>p \<in> set [Push_cas (8 :: int) 3, Pop_read (- 1) 2]. local_inv (lf_size ex_inflight) p)"
    by (simp add: ex_inflight_def read_index_def bit_0)
  have "\<forall>ths (s1 :: int lfstack). read_index (lf_index s1) \<le> lf_size s1 - 1 \<and>
              (\<forall>p \<in> set ths. local_inv (lf_size s1) p) \<longrightarrow>
              read_index (lf_index (snd (exec [Step 0, Step 1] (ths, s1))))
                \<le> lf_size (snd (exec [Step 0, Step 1] (ths, s1))) - 1"
    using count_never_exceeds_size_minus_one [OF r, of "[Step 0, Step 1]" 2,
        THEN conjunct2, THEN conjunct2, THEN conjunct2, THEN conjunct2] .
  then have "read_index (lf_index (snd (exec [Step 0, Step 1]
                 ([Push_cas 8 3, Pop_read (- 1) 2], ex_inflight))))
               \<le> lf_size (snd (exec [Step 0, Step 1]
                 ([Push_cas 8 3, Pop_read (- 1) 2], ex_inflight))) - 1"
    using h by (elim allE [of _ "[Push_cas 8 3, Pop_read (- 1) 2]"] allE [of _ ex_inflight] impE)
  then have c5: "read_index (lf_index (ex_inflight\<lparr>lf_index := 4\<rparr>))
     \<le> lf_size (ex_inflight\<lparr>lf_index := 4\<rparr>) - 1"
    unfolding g snd_conv .
  have v: "read_index (lf_index (ex_inflight\<lparr>lf_index := 4\<rparr>)) = 2"
    "lf_size (ex_inflight\<lparr>lf_index := 4\<rparr>) - 1 = 2"
    "local_inv (lf_size ex_inflight) (Push_cas (8 :: int) 3)"
    "local_inv (lf_size ex_inflight) (Pop_read (- 1 :: int) 2)"
    using h by (simp_all add: ex_inflight_def read_index_def)
  show ?thesis
    using r e g c1 c5 h v by (simp del: exec.simps)
qed

section \<open>The capacity bound of the plain stack\<close>

lemma u32_max: "(0 :: u32) - 1 = 4294967295"
  by simp

lemma less_max_iff: "((i :: u32) < 0 - 1) = (unat i \<le> 4294967294)"
proof -
  have "unat ((0 :: u32) - 1) = 4294967295" unfolding u32_max by simp
  then show ?thesis
    unfolding word_less_nat_alt by arith
qed

lemma less_max_iff_ne: "((i :: u32) < 0 - 1) = (i \<noteq> 4294967295)"
proof -
  have "unat i < 2 ^ 32" using unsigned_less [of i, where 'a = nat] by simp
  moreover have "(i = 4294967295) = (unat i = 4294967295)"
    by (simp add: word_unat_eq_iff)
  ultimately show ?thesis unfolding less_max_iff by auto
qed

lemma less_minus_one: "((i :: u32) < - 1) = (i \<noteq> 4294967295)"
  using less_max_iff_ne [of i] by simp

lemma stack_resize_size: "stack_resize z n s = Inr s' \<Longrightarrow> s_size s' = s_size s"
  by (auto simp add: stack_resize_def Let_def split: if_splits)

lemma stack_push_size: "stack_push t s = Inr s' \<Longrightarrow> s_size s' = s_size s \<and> s_ptr s' = s_ptr s"
  by (auto simp add: stack_push_def split: if_splits)

lemma stack_try_pop_size: "stack_try_pop r s = Inr (b, r', s') \<Longrightarrow> s_size s' = s_size s \<and> s_ptr s' = s_ptr s"
  by (auto simp add: stack_try_pop_def Let_def split: if_splits)

lemma stack_run_size: "stack_run ops r s = (obs, Inr s') \<Longrightarrow> s_size s' = s_size s"
proof (induction ops r s arbitrary: obs rule: stack_run.induct)
  case (1 r s)
  then show ?case by simp
next
  case (2 t ops r s)
  then show ?case
    by (auto simp add: stack_push_size split: sum.splits)
next
  case (3 ops r s)
  then show ?case
    by (auto simp add: stack_try_pop_size split: sum.splits prod.splits)
qed

lemma plain2_resize: "stack_resize 0 2 stack_new = Inr plain2"
  by (simp add: stack_resize_def stack_new_def vector_resize_def plain2_def numeral_2_eq_2)

lemma stack_push_size0:
  assumes "s_ptr s" and "s_size s = 0"
  shows "(stack_push t s = Inl AssertionFailed) = (s_index s = 4294967295)"
  using assms less_max_iff_ne [of "s_index s"] by (auto simp add: stack_push_def)

text \<open>
  C9. \<open>stack::resize(n)\<close> does not assign \<open>size\<close>, which stays 0 for every \<open>n\<close> and
  through every later call. The assertion \<open>index < size - 1\<close> of \<open>push\<close> therefore
  compares with \<open>0 - 1 = 4294967295\<close> in \<open>uint32_t\<close>: it holds for every index up to
  \<open>2^32 - 2\<close> and fails only at \<open>index = 4294967295\<close>, whatever \<open>n\<close> was.
\<close>

theorem plain_capacity_bound_vacuous:
  assumes "stack_resize z n stack_new = Inr (s :: 'a stack)"
  shows "s_size s = 0 \<and> s_size s - 1 = 4294967295 \<and>
         (\<forall>i. (i < s_size s - 1) = (unat i \<le> 4294967294)) \<and>
         (\<forall>ops r obs s'. stack_run ops r s = (obs, Inr s') \<longrightarrow> s_size s' = 0) \<and>
         (\<forall>t (s' :: 'a stack). s_ptr s' \<and> s_size s' = 0 \<longrightarrow>
            (stack_push t s' = Inl AssertionFailed) = (s_index s' = 4294967295))"
proof -
  have z: "s_size s = 0"
    using stack_resize_size [OF assms] by (simp add: stack_new_def)
  show ?thesis
  proof (intro conjI allI impI)
    show "s_size s = 0" by (rule z)
    show "s_size s - 1 = 4294967295" unfolding z by simp
    show "(i < s_size s - 1) = (unat i \<le> 4294967294)" for i
      unfolding z by (rule less_max_iff)
    show "s_size s' = 0" if "stack_run ops r s = (obs, Inr s')" for ops r obs s'
      using stack_run_size [OF that] z by simp
    show "(stack_push t s' = Inl AssertionFailed) = (s_index s' = 4294967295)"
      if "s_ptr s' \<and> s_size s' = 0" for t and s' :: "'a stack"
      using that by (simp add: stack_push_size0)
  qed
qed

theorem plain_capacity_bound_vacuous_witness:
  "stack_resize 0 2 stack_new = Inr plain2 \<and> s_size plain2 = 0 \<and>
   (5 < s_size plain2 - 1) = (unat (5 :: u32) \<le> 4294967294) \<and>
   stack_run [Push 1, Push 2] (- 1) plain2
     = ([], Inr \<lparr>s_contents = [1, 2], s_ptr = True, s_index = 2, s_size = 0\<rparr>)"
proof -
  note c = plain_capacity_bound_vacuous [OF plain2_resize]
  have c1: "s_size plain2 = 0" using c by (rule conjunct1)
  have c3: "(5 < s_size plain2 - 1) = (unat (5 :: u32) \<le> 4294967294)"
    using c [THEN conjunct2, THEN conjunct2, THEN conjunct1] by (rule spec)
  have "stack_run [Push 1, Push 2] (- 1) plain2
     = ([], Inr \<lparr>s_contents = [1, 2], s_ptr = True, s_index = 2, s_size = 0\<rparr>)"
    by (simp add: plain2_def stack_push_def less_minus_one)
  then show ?thesis using plain2_resize c1 c3 by simp
qed

lemma lf2_resize: "lfstack_nonconcurrent_resize 0 2 (lfstack_new i0) = Inr lf2"
  by (simp add: lfstack_nonconcurrent_resize_def lfstack_new_def vector_resize_def lf2_def
      numeral_2_eq_2)

text \<open>
  C4. A \<open>stack<int>\<close> resized to 2 accepts a second \<open>push\<close> (more than \<open>n - 1\<close>
  elements) without failing the assertion, and a third \<open>push\<close> writes outside the vector.
  \<open>lfstack::nonconcurrent_resize\<close> does assign \<open>size\<close>: on the \<open>lfstack<int>\<close> resized
  to 2 and holding one value, the assertion of line 176 fails.
\<close>

theorem plain_push_past_capacity:
  "stack_resize 0 2 stack_new = Inr plain2 \<and>
   stack_run [Push 1] (- 1) plain2
     = ([], Inr \<lparr>s_contents = [1, 0], s_ptr = True, s_index = 1, s_size = 0\<rparr>) \<and>
   stack_run [Push 1, Push 2] (- 1) plain2
     = ([], Inr \<lparr>s_contents = [1, 2], s_ptr = True, s_index = 2, s_size = 0\<rparr>) \<and>
   stack_run [Push 1, Push 2, Push 3] (- 1) plain2 = ([], Inl UndefinedBehaviour) \<and>
   lfstack_nonconcurrent_resize 0 2 (lfstack_new 5) = Inr lf2 \<and> lf_size lf2 = 2 \<and>
   step (Push_load 2) (lf2\<lparr>lf_contents := [1, 0], lf_index := 3\<rparr>)
     = (Abort AssertionFailed, lf2\<lparr>lf_contents := [1, 0], lf_index := 3\<rparr>)"
  by (simp add: plain2_resize lf2_resize)
    (simp add: plain2_def lf2_def stack_push_def word_eval less_minus_one)

section \<open>The test of main on the three stacks\<close>

lemma replicate_100: "replicate 100 (0 :: int) = 0 # 0 # 0 # replicate 97 0"
  by (simp add: numeral_eq_Suc)

lemma plain100_resize: "stack_resize 0 100 stack_new = Inr plain100"
  by (simp add: stack_resize_def stack_new_def vector_resize_def plain100_def)

lemma guarded100_resize: "lstack_nonconcurrent_resize 0 100 lstack_new = Inr guarded100"
  by (simp add: lstack_nonconcurrent_resize_def lstack_new_def plain100_resize guarded100_def)

lemma lf100_resize: "lfstack_nonconcurrent_resize 0 100 (lfstack_new i0) = Inr lf100"
  by (simp add: lfstack_nonconcurrent_resize_def lfstack_new_def vector_resize_def lf100_def)

lemma plain100_scenario:
  "stack_run scenario (- 1) plain100
     = ([(True, 3), (True, 2), (True, 1), (False, 1)],
        Inr (plain100\<lparr>s_contents := [1, 2, 3] @ replicate 97 0\<rparr>))"
  by (simp add: scenario_def plain100_def replicate_100 stack_push_def stack_try_pop_def
      less_minus_one)

lemma guarded100_scenario:
  "lstack_run scenario (- 1) guarded100
     = ([(True, 3), (True, 2), (True, 1), (False, 1)],
        Inr (guarded100\<lparr>wrapped := plain100\<lparr>s_contents := [1, 2, 3] @ replicate 97 0\<rparr>\<rparr>))"
  by (simp add: scenario_def guarded100_def plain100_def replicate_100 lstack_push_def
      lstack_try_pop_def mutex_lock_def mutex_unlock_def stack_push_def stack_try_pop_def
      less_minus_one)

lemma lf100_scenario:
  "lfstack_run scenario (- 1) lf100 = Some ([], Inl UndefinedBehaviour)"
  by (simp add: scenario_def lf100_def lfstack_push_eq)

lemma lf100_first_push:
  "exec [Call_push 0 1, Step 0, Step 0, Step 0, Step 0] ([Idle], lf100)
     = ([Abort UndefinedBehaviour], lf100\<lparr>lf_index := 1\<rparr>)"
  by (simp add: lf100_def word_eval)

text \<open>
  C6. Run by one thread, \<open>resize(100)\<close>, \<open>push(1)\<close>, \<open>push(2)\<close>, \<open>push(3)\<close> and four
  calls of \<open>try_pop\<close> give \<open>(true, 3)\<close>, \<open>(true, 2)\<close>, \<open>(true, 1)\<close> and \<open>false\<close> with
  \<open>r\<close> left at 1 on \<open>stack\<close> and on \<open>lstack\<close>. On \<open>lfstack\<close> the first \<open>push\<close> sets
  the flag and then flows off the end of \<open>acquire_write_rights\<close>: the scenario ends in
  undefined behaviour before any value is stored.
\<close>

theorem literal_scenario:
  "stack_resize 0 100 stack_new = Inr plain100 \<and>
   stack_run scenario (- 1) plain100
     = ([(True, 3), (True, 2), (True, 1), (False, 1)],
        Inr (plain100\<lparr>s_contents := [1, 2, 3] @ replicate 97 0\<rparr>)) \<and>
   lstack_nonconcurrent_resize 0 100 lstack_new = Inr guarded100 \<and>
   lstack_run scenario (- 1) guarded100
     = ([(True, 3), (True, 2), (True, 1), (False, 1)],
        Inr (guarded100\<lparr>wrapped := plain100\<lparr>s_contents := [1, 2, 3] @ replicate 97 0\<rparr>\<rparr>)) \<and>
   lfstack_nonconcurrent_resize 0 100 (lfstack_new i0) = Inr lf100 \<and>
   lfstack_run scenario (- 1) lf100 = Some ([], Inl UndefinedBehaviour) \<and>
   exec [Call_push 0 1, Step 0, Step 0, Step 0, Step 0] ([Idle], lf100)
     = ([Abort UndefinedBehaviour], lf100\<lparr>lf_index := 1\<rparr>)"
  using plain100_resize plain100_scenario guarded100_resize guarded100_scenario
    lf100_resize [of i0] lf100_scenario lf100_first_push
  by (intro conjI)

section \<open>The guarded stack and the plain stack\<close>

lemma lstack_push_unlocked:
  "lstack_push t \<lparr>wrapped = s, mx = False\<rparr> =
     (case stack_push t s of Inl e \<Rightarrow> Inl e | Inr s' \<Rightarrow> Inr \<lparr>wrapped = s', mx = False\<rparr>)"
  by (simp add: lstack_push_def mutex_lock_def mutex_unlock_def split: sum.splits)

lemma lstack_try_pop_unlocked:
  "lstack_try_pop r \<lparr>wrapped = s, mx = False\<rparr> =
     (case stack_try_pop r s of
        Inl e \<Rightarrow> Inl e
      | Inr (b, r', s') \<Rightarrow> Inr (b, r', \<lparr>wrapped = s', mx = False\<rparr>))"
  by (simp add: lstack_try_pop_def mutex_lock_def mutex_unlock_def split: sum.splits prod.splits)

lemma lstack_run_unlocked:
  "lstack_run ops r \<lparr>wrapped = s, mx = False\<rparr> =
     (case stack_run ops r s of
        (obs, Inl e) \<Rightarrow> (obs, Inl e)
      | (obs, Inr s') \<Rightarrow> (obs, Inr \<lparr>wrapped = s', mx = False\<rparr>))"
proof (induction ops r s rule: stack_run.induct)
  case (1 r s)
  show ?case by simp
next
  case (2 t ops r s)
  then show ?case
    by (simp add: lstack_push_unlocked split: sum.splits)
next
  case (3 ops r s)
  then show ?case
    by (simp add: lstack_try_pop_unlocked split: sum.splits prod.splits)
qed

text \<open>
  C8. Called from one thread, \<open>lstack\<close> behaves as \<open>stack\<close>: \<open>nonconcurrent_resize(n)\<close>
  fails or succeeds as \<open>resize(n)\<close> does, and after it every sequence of \<open>push\<close> and
  \<open>try_pop\<close> gives the same results of \<open>try_pop\<close>, the same failure if any, and a final
  state whose wrapped stack is the final plain stack (the mutex released).
\<close>

theorem guarded_behaves_as_plain:
  "(case stack_resize z n stack_new of
      Inl e \<Rightarrow> lstack_nonconcurrent_resize z n lstack_new = Inl e
    | Inr s \<Rightarrow>
        lstack_nonconcurrent_resize z n lstack_new = Inr \<lparr>wrapped = s, mx = False\<rparr> \<and>
        (\<forall>ops r. lstack_run ops r \<lparr>wrapped = s, mx = False\<rparr> =
           (case stack_run ops r s of
              (obs, Inl e) \<Rightarrow> (obs, Inl e)
            | (obs, Inr s') \<Rightarrow> (obs, Inr \<lparr>wrapped = s', mx = False\<rparr>))))"
  by (simp add: lstack_nonconcurrent_resize_def lstack_new_def lstack_run_unlocked
      split: sum.splits)

theorem guarded_behaves_as_plain_witness:
  "stack_resize 0 2 stack_new = Inr plain2 \<and>
   lstack_nonconcurrent_resize 0 2 lstack_new = Inr \<lparr>wrapped = plain2, mx = False\<rparr> \<and>
   stack_run [Push 1, Try_pop, Try_pop] (- 1) plain2
     = ([(True, 1), (False, 1)],
        Inr \<lparr>s_contents = [1, 0], s_ptr = True, s_index = 0, s_size = 0\<rparr>) \<and>
   lstack_run [Push 1, Try_pop, Try_pop] (- 1) \<lparr>wrapped = plain2, mx = False\<rparr>
     = ([(True, 1), (False, 1)],
        Inr \<lparr>wrapped = \<lparr>s_contents = [1, 0], s_ptr = True, s_index = 0, s_size = 0\<rparr>,
              mx = False\<rparr>)"
proof -
  note g = guarded_behaves_as_plain [of "0 :: int" 2, unfolded plain2_resize sum.case]
  have r: "stack_run [Push 1, Try_pop, Try_pop] (- 1) plain2
     = ([(True, 1), (False, 1)],
        Inr \<lparr>s_contents = [1, 0], s_ptr = True, s_index = 0, s_size = 0\<rparr>)"
    by (simp add: plain2_def stack_push_def stack_try_pop_def less_minus_one)
  have "lstack_run [Push 1, Try_pop, Try_pop] (- 1) \<lparr>wrapped = plain2, mx = False\<rparr> =
           (case stack_run [Push 1, Try_pop, Try_pop] (- 1) plain2 of
              (obs, Inl e) \<Rightarrow> (obs, Inl e)
            | (obs, Inr s') \<Rightarrow> (obs, Inr \<lparr>wrapped = s', mx = False\<rparr>))"
    using g [THEN conjunct2] by (elim allE)
  then show ?thesis
    using g [THEN conjunct1] plain2_resize unfolding r by simp
qed

section \<open>When try\_pop returns false\<close>

lemma stack_try_pop_false:
  "(stack_try_pop r s = Inr (False, r', s')) = (s_index s = 0 \<and> r' = r \<and> s' = s)"
  by (auto simp add: stack_try_pop_def Let_def word_neq_0_conv)

lemma lstack_try_pop_false:
  "(lstack_try_pop r \<lparr>wrapped = s, mx = False\<rparr> = Inr (False, r', l')) =
     (s_index s = 0 \<and> r' = r \<and> l' = \<lparr>wrapped = s, mx = False\<rparr>)"
proof (cases "s_index s = 0")
  case True
  then have "stack_try_pop r s = Inr (False, r, s)" by (simp add: stack_try_pop_def)
  then show ?thesis using True unfolding lstack_try_pop_unlocked by auto
next
  case False
  then consider e where "stack_try_pop r s = Inl e"
    | v s'' where "stack_try_pop r s = Inr (True, v, s'')"
    by (cases "length (s_contents s) \<le> unat (s_index s - 1)")
      (auto simp add: stack_try_pop_def Let_def word_neq_0_conv)
  then show ?thesis
  proof cases
    case 1
    then show ?thesis using False unfolding lstack_try_pop_unlocked by simp
  next
    case 2
    then show ?thesis using False unfolding lstack_try_pop_unlocked by simp
  qed
qed

lemma lfstack_try_pop_false:
  "(lfstack_try_pop r s = Some (Pop_return False r', s')) =
     (lf_ptr s \<and> read_index (lf_index s) = 0 \<and> r' = r \<and> s' = s)"
  unfolding lfstack_try_pop_eq by (auto simp add: is_zero_clean)

lemma pop_empty_steps:
  assumes "lf_ptr s" and "read_index (lf_index s) = 0"
  shows "step (Pop_entry r) s = (Pop_load r, s)" and "step (Pop_load r) s = (Pop_return False r, s)"
  using assms by (simp_all add: Let_def is_zero_clean)

lemma return_false_step:
  "(step p s = (Pop_return False r', s') \<and> p \<noteq> Pop_return False r') =
     (p = Pop_load r' \<and> read_index (lf_index s) = 0 \<and> s' = s)"
  by (cases p)
    (auto simp add: Let_def is_zero_clean compare_exchange_strong_def split: sum.splits if_splits)

text \<open>
  C7 (as amended). \<open>stack::try_pop\<close>, \<open>lstack::try_pop\<close> (mutex free) and
  \<open>lfstack::try_pop\<close> run by one thread alone return false exactly when the index (the
  count field) is 0 at the call, and then leave \<open>t\<close> and the stack unchanged; for
  \<open>lfstack\<close> the first load returns at once, without a compare-and-swap. Among several
  threads, \<open>lfstack::try_pop\<close> returns false exactly at a load of its loop that observes
  count 0, and that step changes neither \<open>dest\<close> nor the stack; what \<open>dest\<close> held
  before that load is not promised. The only failure that a call reports by its result
  is this one: all others are \<open>Inl\<close> (a failed assertion or an access outside the
  vector).
\<close>

theorem try_pop_false_iff_observed_empty:
  "((stack_try_pop r s = Inr (False, r', s')) = (s_index s = 0 \<and> r' = r \<and> s' = s)) \<and>
   ((lstack_try_pop r \<lparr>wrapped = s, mx = False\<rparr> = Inr (False, r', l')) =
      (s_index s = 0 \<and> r' = r \<and> l' = \<lparr>wrapped = s, mx = False\<rparr>)) \<and>
   ((lfstack_try_pop r f = Some (Pop_return False r', f')) =
      (lf_ptr f \<and> read_index (lf_index f) = 0 \<and> r' = r \<and> f' = f)) \<and>
   (lf_ptr f \<and> read_index (lf_index f) = 0 \<longrightarrow>
      step (Pop_entry r) f = (Pop_load r, f) \<and> step (Pop_load r) f = (Pop_return False r, f)) \<and>
   ((step p f = (Pop_return False r', f') \<and> p \<noteq> Pop_return False r') =
      (p = Pop_load r' \<and> read_index (lf_index f) = 0 \<and> f' = f))"
proof (intro conjI impI)
  show "(stack_try_pop r s = Inr (False, r', s')) = (s_index s = 0 \<and> r' = r \<and> s' = s)"
    by (rule stack_try_pop_false)
  show "(lstack_try_pop r \<lparr>wrapped = s, mx = False\<rparr> = Inr (False, r', l')) =
      (s_index s = 0 \<and> r' = r \<and> l' = \<lparr>wrapped = s, mx = False\<rparr>)"
    by (rule lstack_try_pop_false)
  show "(lfstack_try_pop r f = Some (Pop_return False r', f')) =
      (lf_ptr f \<and> read_index (lf_index f) = 0 \<and> r' = r \<and> f' = f)"
    by (rule lfstack_try_pop_false)
  show "step (Pop_entry r) f = (Pop_load r, f)" if "lf_ptr f \<and> read_index (lf_index f) = 0"
    using that pop_empty_steps(1) [of f r] by simp
  show "step (Pop_load r) f = (Pop_return False r, f)" if "lf_ptr f \<and> read_index (lf_index f) = 0"
    using that pop_empty_steps(2) [of f r] by (simp del: step.simps)
  show "(step p f = (Pop_return False r', f') \<and> p \<noteq> Pop_return False r') =
      (p = Pop_load r' \<and> read_index (lf_index f) = 0 \<and> f' = f)"
    by (rule return_false_step)
qed

theorem try_pop_false_iff_observed_empty_witness:
  "s_index plain2 = 0 \<and> stack_try_pop (- 1) plain2 = Inr (False, - 1, plain2) \<and>
   lstack_try_pop (- 1) \<lparr>wrapped = plain2, mx = False\<rparr>
     = Inr (False, - 1, \<lparr>wrapped = plain2, mx = False\<rparr>) \<and>
   lf_ptr ex3 \<and> read_index (lf_index ex3) = 0 \<and>
   lfstack_try_pop (- 1) ex3 = Some (Pop_return False (- 1), ex3) \<and>
   step (Pop_load (- 1)) ex3 = (Pop_return False (- 1), ex3)"
proof -
  have a: "s_index plain2 = 0" by (simp add: plain2_def)
  have b: "lf_ptr ex3 \<and> read_index (lf_index ex3) = 0" by (simp add: ex3_def read_index_def)
  note t = try_pop_false_iff_observed_empty [of "- 1" plain2 "- 1" plain2
      "\<lparr>wrapped = plain2, mx = False\<rparr>" ex3 ex3 "Pop_load (- 1)"]
  have "stack_try_pop (- 1) plain2 = Inr (False, - 1, plain2)"
    using t [THEN conjunct1] a by simp
  moreover have "lstack_try_pop (- 1) \<lparr>wrapped = plain2, mx = False\<rparr>
     = Inr (False, - 1, \<lparr>wrapped = plain2, mx = False\<rparr>)"
    using t [THEN conjunct2, THEN conjunct1] a by simp
  moreover have "lfstack_try_pop (- 1) ex3 = Some (Pop_return False (- 1), ex3)"
    using t [THEN conjunct2, THEN conjunct2, THEN conjunct1] b by simp
  moreover have "step (Pop_load (- 1)) ex3 = (Pop_return False (- 1), ex3)"
    using t [THEN conjunct2, THEN conjunct2, THEN conjunct2, THEN conjunct1] b by simp
  ultimately show ?thesis using a b by simp
qed

text \<open>
  C7 as stated fails for \<open>lfstack\<close> among threads. The stack holds one element (7) when
  thread 0 calls \<open>try_pop\<close> with \<open>dest = -1\<close>; it loads the control word 2 and copies slot 0
  to \<open>dest\<close>. Thread 1 then pops the element. The compare-and-swap of thread 0 fails, its
  next load observes count 0, and it returns false with \<open>dest = 7\<close>: the stack was not
  empty at the call, and \<open>dest\<close> was changed.
\<close>

theorem try_pop_false_counterexample:
  "exec [Call_try_pop 0 (- 1)] ([Idle, Idle], ex_one) = ([Pop_entry (- 1), Idle], ex_one) \<and>
   read_index (lf_index ex_one) = 1 \<and>
   exec [Step 0, Step 0, Step 0,
         Call_try_pop 1 (- 5), Step 1, Step 1, Step 1, Step 1,
         Step 0, Step 0] ([Pop_entry (- 1), Idle], ex_one)
     = ([Pop_return False 7, Pop_return True 7], ex_one\<lparr>lf_index := 0\<rparr>)"
  by (simp add: ex_one_def word_eval)

section \<open>Last in, first out\<close>

lemma unat_of_nat_u32: "n < 2 ^ 32 \<Longrightarrow> unat (of_nat n :: u32) = n"
  by (simp add: unat_of_nat)

lemma stack_push_ok:
  assumes "s_ptr s" and "s_size s = 0" and "s_index s = of_nat k" and "k < 4294967295"
    and "k < length (s_contents s)"
  shows "stack_push t s = Inr (s\<lparr>s_contents := (s_contents s)[k := t], s_index := of_nat (Suc k)\<rparr>)"
proof -
  have u: "unat (s_index s) = k" using assms(3,4) by (simp add: unat_of_nat_u32)
  then have "unat (s_index s) \<le> 4294967294" using assms(4) by simp
  then have "s_index s < s_size s - 1" using assms(2) less_max_iff [of "s_index s"] by simp
  then show ?thesis using assms(1,3,5) u by (simp add: stack_push_def)
qed

lemma stack_run_pushes:
  assumes "s_ptr s" and "s_size s = 0" and "s_index s = of_nat k"
    and "k + length vs \<le> 4294967295" and "k + length vs \<le> length (s_contents s)"
  shows "stack_run (map Push vs @ ops) r s =
           stack_run ops r
             (s\<lparr>s_contents := take k (s_contents s) @ vs @ drop (k + length vs) (s_contents s),
                s_index := of_nat (k + length vs)\<rparr>)"
  using assms
proof (induction vs arbitrary: s k)
  case Nil
  have "s\<lparr>s_index := of_nat k\<rparr> = s"
    using Nil.prems(3) by (cases s) simp
  then show ?case by simp
next
  case (Cons v vs)
  let ?s = "s\<lparr>s_contents := (s_contents s)[k := v], s_index := of_nat (Suc k)\<rparr>"
  have k: "k < 4294967295" "k < length (s_contents s)" using Cons.prems by simp_all
  have p: "stack_push v s = Inr ?s"
    using Cons.prems(1,2,3) k by (rule stack_push_ok)
  have "stack_run (map Push vs @ ops) r ?s =
           stack_run ops r
             (?s\<lparr>s_contents := take (Suc k) (s_contents ?s) @ vs @ drop (Suc k + length vs) (s_contents ?s),
                s_index := of_nat (Suc k + length vs)\<rparr>)"
    using Cons.prems by (intro Cons.IH) simp_all
  moreover have "take (Suc k) ((s_contents s)[k := v]) = take k (s_contents s) @ [v]"
    using k(2) by (simp add: take_Suc_conv_app_nth)
  ultimately show ?case using p by simp
qed

lemma stack_try_pop_ok:
  assumes "s_index s = of_nat (Suc m)" and "Suc m < 2 ^ 32" and "m < length (s_contents s)"
  shows "stack_try_pop r s = Inr (True, s_contents s ! m, s\<lparr>s_index := of_nat m\<rparr>)"
proof -
  have "unat (s_index s) = Suc m" using assms(1,2) by (simp only: unat_of_nat_u32)
  then have "s_index s \<noteq> 0" "0 < s_index s" by (auto simp add: word_less_nat_alt)
  moreover have "s_index s - 1 = of_nat m" using assms(1) by simp
  moreover have "unat (of_nat m :: u32) = m" using assms(2) by (simp add: unat_of_nat_u32)
  ultimately show ?thesis using assms(3) by (simp add: stack_try_pop_def)
qed

lemma stack_run_pops:
  assumes "s_index s = of_nat m" and "m < 2 ^ 32" and "m \<le> length (s_contents s)"
  shows "stack_run (replicate m Try_pop) r s =
           (map (Pair True) (rev (take m (s_contents s))), Inr (s\<lparr>s_index := 0\<rparr>))"
  using assms
proof (induction m arbitrary: s r)
  case 0
  then show ?case by simp
next
  case (Suc m)
  have p: "stack_try_pop r s = Inr (True, s_contents s ! m, s\<lparr>s_index := of_nat m\<rparr>)"
    using Suc.prems by (intro stack_try_pop_ok) simp_all
  have "stack_run (replicate m Try_pop) (s_contents s ! m) (s\<lparr>s_index := of_nat m\<rparr>) =
           (map (Pair True) (rev (take m (s_contents s))), Inr (s\<lparr>s_index := 0\<rparr>))"
    using Suc.IH [of "s\<lparr>s_index := of_nat m\<rparr>" "s_contents s ! m"] Suc.prems by simp
  moreover have "rev (take (Suc m) (s_contents s)) = s_contents s ! m # rev (take m (s_contents s))"
    using Suc.prems(3) by (simp add: take_Suc_conv_app_nth)
  ultimately show ?case using p by simp
qed

lemma stack_resize_new:
  "0 < n \<Longrightarrow> stack_resize z n stack_new =
     Inr \<lparr>s_contents = replicate n z, s_ptr = True, s_index = 0, s_size = 0\<rparr>"
  by (simp add: stack_resize_def stack_new_def vector_resize_def)

lemma lfstack_resize_new:
  "0 < n \<Longrightarrow> lfstack_nonconcurrent_resize z n (lfstack_new i0) =
     Inr \<lparr>lf_contents = replicate n z, lf_ptr = True, lf_index = 0, lf_size = of_nat n\<rparr>"
  by (simp add: lfstack_nonconcurrent_resize_def lfstack_new_def vector_resize_def)

lemma plain_lifo:
  assumes "length vs < n - 1" and "length vs < 2 ^ 32"
  shows "stack_run (map Push vs @ replicate (length vs) Try_pop) r
           \<lparr>s_contents = replicate n z, s_ptr = True, s_index = 0, s_size = 0\<rparr> =
         (map (Pair True) (rev vs),
          Inr \<lparr>s_contents = vs @ replicate (n - length vs) z, s_ptr = True, s_index = 0,
               s_size = 0\<rparr>)"
proof -
  let ?s = "\<lparr>s_contents = replicate n z, s_ptr = True, s_index = 0, s_size = 0\<rparr>"
  let ?s1 = "\<lparr>s_contents = vs @ replicate (n - length vs) z, s_ptr = True,
               s_index = of_nat (length vs), s_size = 0\<rparr>"
  have "stack_run (map Push vs @ replicate (length vs) Try_pop) r ?s =
          stack_run (replicate (length vs) Try_pop) r
            (?s\<lparr>s_contents := take 0 (s_contents ?s) @ vs @ drop (0 + length vs) (s_contents ?s),
                s_index := of_nat (0 + length vs)\<rparr>)"
    using assms by (intro stack_run_pushes) simp_all
  then have "stack_run (map Push vs @ replicate (length vs) Try_pop) r ?s =
          stack_run (replicate (length vs) Try_pop) r ?s1"
    by simp
  moreover have "stack_run (replicate (length vs) Try_pop) r ?s1 =
          (map (Pair True) (rev (take (length vs) (s_contents ?s1))), Inr (?s1\<lparr>s_index := 0\<rparr>))"
    using assms by (intro stack_run_pops) simp_all
  ultimately show ?thesis by simp
qed

lemma size_minus_one:
  assumes "1 < n" and "n \<le> 2 ^ 32"
  shows "n - 1 \<le> unat ((of_nat n :: u32) - 1)"
proof (cases "n = 2 ^ 32")
  case True
  then have "(of_nat n :: u32) = 0" by simp
  then show ?thesis using True by simp
next
  case False
  then have "n < 2 ^ 32" using assms by simp
  then have u: "unat (of_nat n :: u32) = n" by (simp add: unat_of_nat)
  then have "(of_nat n :: u32) \<noteq> 0" using assms(1) by (metis not_less_zero unat_0)
  then have "unat ((of_nat n :: u32) - 1) = unat (of_nat n :: u32) - 1"
    by (rule unat_minus_one)
  then show ?thesis using u by simp
qed

lemma unat_u32_less: "unat (w :: u32) < 2 ^ 32"
  using unsigned_less [of w, where 'a = nat] by simp

text \<open>
  C5 (as amended). For values \<open>v1, ..., vn\<close> with \<open>n < capacity - 1\<close>, where \<open>n\<close> is
  also at most the \<open>uint32_t\<close> value of \<open>capacity - 1\<close> (the bound that the assertion
  \<open>index < size - 1\<close> computes when \<open>size\<close> holds the capacity; for every capacity up to
  \<open>2^32\<close> this adds nothing): after resizing, pushing them in order and then calling
  \<open>try_pop\<close> \<open>n\<close> times, every \<open>try_pop\<close> returns true and the values come back as
  \<open>vn, ..., v1\<close>, on \<open>stack\<close> and on \<open>lstack\<close>. Nothing is said of \<open>lfstack\<close>.
\<close>

theorem lifo_order:
  assumes "length vs < n - 1" and "n \<le> 2 ^ 32 \<or> length vs \<le> unat ((of_nat n :: u32) - 1)"
  shows "stack_resize z n stack_new =
           Inr \<lparr>s_contents = replicate n z, s_ptr = True, s_index = 0, s_size = 0\<rparr> \<and>
         stack_run (map Push vs @ replicate (length vs) Try_pop) r
             \<lparr>s_contents = replicate n z, s_ptr = True, s_index = 0, s_size = 0\<rparr> =
           (map (Pair True) (rev vs),
            Inr \<lparr>s_contents = vs @ replicate (n - length vs) z, s_ptr = True, s_index = 0,
                 s_size = 0\<rparr>) \<and>
         lstack_nonconcurrent_resize z n lstack_new =
           Inr \<lparr>wrapped = \<lparr>s_contents = replicate n z, s_ptr = True, s_index = 0,
                             s_size = 0\<rparr>, mx = False\<rparr> \<and>
         lstack_run (map Push vs @ replicate (length vs) Try_pop) r
             \<lparr>wrapped = \<lparr>s_contents = replicate n z, s_ptr = True, s_index = 0,
                           s_size = 0\<rparr>, mx = False\<rparr> =
           (map (Pair True) (rev vs),
            Inr \<lparr>wrapped = \<lparr>s_contents = vs @ replicate (n - length vs) z, s_ptr = True,
                              s_index = 0, s_size = 0\<rparr>, mx = False\<rparr>)"
proof -
  have n: "0 < n" "1 < n" using assms(1) by simp_all
  have "length vs \<le> unat ((of_nat n :: u32) - 1)"
    using assms size_minus_one [OF n(2)] by auto
  then have len: "length vs < 2 ^ 32"
    using unat_u32_less [of "of_nat n - 1"] by simp
  have plain: "stack_run (map Push vs @ replicate (length vs) Try_pop) r
                \<lparr>s_contents = replicate n z, s_ptr = True, s_index = 0, s_size = 0\<rparr> =
              (map (Pair True) (rev vs),
               Inr \<lparr>s_contents = vs @ replicate (n - length vs) z, s_ptr = True, s_index = 0,
                    s_size = 0\<rparr>)"
    using assms(1) len by (rule plain_lifo)
  have guarded: "lstack_run (map Push vs @ replicate (length vs) Try_pop) r
                \<lparr>wrapped = \<lparr>s_contents = replicate n z, s_ptr = True, s_index = 0,
                              s_size = 0\<rparr>, mx = False\<rparr> =
              (map (Pair True) (rev vs),
               Inr \<lparr>wrapped = \<lparr>s_contents = vs @ replicate (n - length vs) z, s_ptr = True,
                                 s_index = 0, s_size = 0\<rparr>, mx = False\<rparr>)"
    unfolding lstack_run_unlocked plain by simp
  have gr: "lstack_nonconcurrent_resize z n lstack_new =
              Inr \<lparr>wrapped = \<lparr>s_contents = replicate n z, s_ptr = True, s_index = 0,
                                s_size = 0\<rparr>, mx = False\<rparr>"
    by (simp add: lstack_nonconcurrent_resize_def lstack_new_def stack_resize_new [OF n(1)])
  show ?thesis
    using plain guarded gr stack_resize_new [OF n(1), of z]
    by (intro conjI)
qed

theorem lifo_order_witness:
  "length [1, 2 :: int] < 4 - 1 \<and>
   ((4 :: nat) \<le> 2 ^ 32 \<or> length [1, 2 :: int] \<le> unat ((of_nat 4 :: u32) - 1)) \<and>
   stack_resize (0 :: int) 4 stack_new =
     Inr \<lparr>s_contents = replicate 4 0, s_ptr = True, s_index = 0, s_size = 0\<rparr> \<and>
   stack_run [Push (1 :: int), Push 2, Try_pop, Try_pop] (- 1)
       \<lparr>s_contents = replicate 4 0, s_ptr = True, s_index = 0, s_size = 0\<rparr> =
     ([(True, 2), (True, 1)],
      Inr \<lparr>s_contents = [1, 2, 0, 0], s_ptr = True, s_index = 0, s_size = 0\<rparr>) \<and>
   lstack_run [Push (1 :: int), Push 2, Try_pop, Try_pop] (- 1)
       \<lparr>wrapped = \<lparr>s_contents = replicate 4 0, s_ptr = True, s_index = 0, s_size = 0\<rparr>,
         mx = False\<rparr> =
     ([(True, 2), (True, 1)],
      Inr \<lparr>wrapped = \<lparr>s_contents = [1, 2, 0, 0], s_ptr = True, s_index = 0, s_size = 0\<rparr>,
           mx = False\<rparr>)"
proof -
  have a: "length [1, 2 :: int] < 4 - 1" by simp
  have b: "(4 :: nat) \<le> 2 ^ 32 \<or> length [1, 2 :: int] \<le> unat ((of_nat 4 :: u32) - 1)" by simp
  note t = lifo_order [OF a b, of "0 :: int" "- 1"]
  have r2: "replicate 2 (0 :: int) = [0, 0]"
    by (simp add: numeral_2_eq_2)
  show ?thesis
    using a b t [THEN conjunct1] t [THEN conjunct2, THEN conjunct1]
      t [THEN conjunct2, THEN conjunct2, THEN conjunct2]
    by (simp add: r2)
qed

lemma replicate_split: "replicate 4294967296 x = replicate 4294967295 x @ [x]"
proof -
  have "replicate (4294967295 + 1) x = replicate 4294967295 x @ replicate 1 x"
    by (rule replicate_add)
  then show ?thesis by simp
qed

text \<open>
  C5 as stated fails beyond the 32-bit index. On a \<open>stack<int>\<close> resized to
  \<open>2^32 + 2\<close>, the first \<open>2^32 - 1\<close> calls of \<open>push\<close> succeed and leave
  \<open>index = 4294967295\<close>; the next \<open>push\<close>, still within \<open>n < capacity - 1\<close> for
  \<open>n = 2^32\<close>, fails the assertion \<open>index < size - 1\<close>. And on an \<open>lfstack<int>\<close>
  resized to 4 the first \<open>push\<close> already ends in undefined behaviour (see C6), so that
  no value comes back.
\<close>

theorem lifo_order_counterexample:
  "length (replicate 4294967296 (0 :: int)) < 4294967298 - 1 \<and>
   stack_resize 0 4294967298 stack_new = Inr plain_big \<and>
   stack_run (map Push (replicate 4294967296 0)
                @ replicate (length (replicate 4294967296 (0 :: int))) Try_pop) (- 1) plain_big
     = ([], Inl AssertionFailed) \<and>
   length [1 :: int] < 4 - 1 \<and>
   lfstack_nonconcurrent_resize (0 :: int) 4 (lfstack_new 5)
     = Inr \<lparr>lf_contents = replicate 4 0, lf_ptr = True, lf_index = 0, lf_size = 4\<rparr> \<and>
   lfstack_run (map Push [1 :: int] @ replicate (length [1 :: int]) Try_pop) (- 1)
       \<lparr>lf_contents = replicate 4 0, lf_ptr = True, lf_index = 0, lf_size = 4\<rparr>
     = Some ([], Inl UndefinedBehaviour)"
proof -
  let ?pops = "replicate (length (replicate 4294967296 (0 :: int))) Try_pop"
  let ?s1 = "plain_big\<lparr>s_contents := take 0 (s_contents plain_big) @ replicate 4294967295 0
                 @ drop (0 + length (replicate 4294967295 (0 :: int))) (s_contents plain_big),
               s_index := of_nat (0 + length (replicate 4294967295 (0 :: int)))\<rparr>"
  have "stack_run (map Push (replicate 4294967295 0) @ (Push 0 # ?pops)) (- 1) plain_big =
          stack_run (Push 0 # ?pops) (- 1) ?s1"
    by (rule stack_run_pushes) (simp_all add: plain_big_def)
  moreover have "stack_push 0 ?s1 = Inl AssertionFailed"
    by (simp add: stack_push_def plain_big_def)
  ultimately have "stack_run (map Push (replicate 4294967295 0) @ (Push 0 # ?pops)) (- 1) plain_big
      = ([], Inl AssertionFailed)"
    by simp
  moreover have "map Push (replicate 4294967296 (0 :: int)) @ ?pops =
      map Push (replicate 4294967295 0) @ (Push 0 # ?pops)"
    unfolding replicate_split [of "0 :: int"] by simp
  moreover have "stack_resize 0 4294967298 stack_new = Inr plain_big"
    by (simp add: stack_resize_new plain_big_def)
  moreover have "lfstack_nonconcurrent_resize 0 4 (lfstack_new 5)
     = Inr \<lparr>lf_contents = replicate 4 (0 :: int), lf_ptr = True, lf_index = 0, lf_size = 4\<rparr>"
    using lfstack_resize_new [of 4 "0 :: int" 5] by simp
  moreover have "lfstack_run (map Push [1 :: int] @ replicate (length [1 :: int]) Try_pop) (- 1)
       \<lparr>lf_contents = replicate 4 0, lf_ptr = True, lf_index = 0, lf_size = 4\<rparr>
     = Some ([], Inl UndefinedBehaviour)"
    by (simp add: lfstack_push_eq)
  ultimately show ?thesis by simp
qed

section \<open>The capacity boundary\<close>

text \<open>
  The two classes at the boundary, for every capacity. On an \<open>lfstack\<close> whose \<open>size\<close>
  holds the capacity \<open>n\<close> (below \<open>2^32\<close>), the assertion of line 176 passes exactly while
  the count is below \<open>n - 1\<close>. A \<open>stack\<close> resized to \<open>n\<close> takes \<open>n\<close> values without
  failing any assertion, since its \<open>size\<close> is 0.
\<close>

lemma size_minus_one_eq:
  assumes "0 < n" and "n < 2 ^ 32"
  shows "unat ((of_nat n :: u32) - 1) = n - 1"
proof -
  have u: "unat (of_nat n :: u32) = n" using assms(2) by (simp add: unat_of_nat)
  then have "(of_nat n :: u32) \<noteq> 0" using assms(1) by (metis not_less_zero unat_0)
  then have "unat ((of_nat n :: u32) - 1) = unat (of_nat n :: u32) - 1"
    by (rule unat_minus_one)
  then show ?thesis using u by simp
qed

lemma lf_assertion_at_capacity:
  assumes "0 < n" and "n < 2 ^ 32" and "lf_size s = of_nat n"
  shows "step (Push_load t) s =
           (if unat (read_index (lf_index s)) < n - 1 then (Push_store t (lf_index s), s)
            else (Abort AssertionFailed, s))"
proof -
  have "unat (lf_size s - 1) = n - 1"
    using size_minus_one_eq [OF assms(1,2)] assms(3) by simp
  then have "(read_index (lf_index s) < lf_size s - 1) = (unat (read_index (lf_index s)) < n - 1)"
    by (simp add: word_less_nat_alt)
  then show ?thesis by (simp add: Let_def)
qed

lemma plain_accepts_capacity_pushes:
  assumes "0 < n" and "n \<le> 4294967295" and "length vs = n"
  shows "stack_run (map Push vs) r
           \<lparr>s_contents = replicate n z, s_ptr = True, s_index = 0, s_size = 0\<rparr> =
         ([], Inr \<lparr>s_contents = vs, s_ptr = True, s_index = of_nat n, s_size = 0\<rparr>)"
proof -
  let ?s = "\<lparr>s_contents = replicate n z, s_ptr = True, s_index = 0, s_size = 0\<rparr>"
  have "stack_run (map Push vs @ []) r ?s =
          stack_run [] r
            (?s\<lparr>s_contents := take 0 (s_contents ?s) @ vs @ drop (0 + length vs) (s_contents ?s),
                s_index := of_nat (0 + length vs)\<rparr>)"
    using assms by (intro stack_run_pushes) simp_all
  then show ?thesis using assms(3) by simp
qed

end
